theory Spec2Isabelle
  imports Main "HOL-Library.AList"
begin

section \<open>JavaScript values and property reads\<close>

text \<open>
  The accessors of \<^verbatim>\<open>internals.ts\<close> read a state tree of type \<^verbatim>\<open>any\<close>. The values
  of the model are plain data: the primitives, objects as the list of their own
  properties (in enumeration order, the first entry of a name being the property), and
  opaque function objects. Numbers are the integers and \<open>NaN\<close>; every other double is
  truthy and behaves here like a non-zero integer. Symbols and big integers are left out.
\<close>

datatype jsval =
    Undefined
  | Null
  | Bool bool
  | Num int
  | NaN
  | Str string
  | Obj "(string \<times> jsval) list"
  | Fn nat

text \<open>JavaScript's \<^verbatim>\<open>ToBoolean\<close>, which \<^verbatim>\<open>&&\<close> and \<^verbatim>\<open>if\<close> apply to their operand.\<close>

fun truthy :: "jsval \<Rightarrow> bool" where
  "truthy Undefined = False"
| "truthy Null = False"
| "truthy (Bool b) = b"
| "truthy (Num n) = (n \<noteq> 0)"
| "truthy NaN = False"
| "truthy (Str s) = (s \<noteq> [])"
| "truthy (Obj props) = True"
| "truthy (Fn f) = True"

text \<open>
  What the code throws: a \<^verbatim>\<open>TypeError\<close> of the runtime (a property read on
  \<^verbatim>\<open>null\<close> or \<^verbatim>\<open>undefined\<close>, a call of something that is no function), or an
  \<^verbatim>\<open>Error\<close> the code constructs itself, with its message.
\<close>

datatype js_error = TypeError | Error string

text \<open>
  A property read \<^verbatim>\<open>v[part]\<close> (or \<^verbatim>\<open>v.part\<close>). It throws on \<^verbatim>\<open>null\<close> and
  \<^verbatim>\<open>undefined\<close>; on an object it gives the own property of that name; a name the
  value does not own is looked up along the prototype chain. What the prototypes hold
  (\<^verbatim>\<open>length\<close> of a string, \<^verbatim>\<open>toString\<close> of everything, ...) belongs to the
  runtime and not to this repository, so it is the parameter \<open>proto\<close>. Reads are pure:
  accessor properties and proxies, whose reads run code, are outside the model.
\<close>

type_synonym proto = "jsval \<Rightarrow> string \<Rightarrow> jsval"

fun getProp :: "proto \<Rightarrow> jsval \<Rightarrow> string \<Rightarrow> js_error + jsval" where
  "getProp proto Undefined part = Inl TypeError"
| "getProp proto Null part = Inl TypeError"
| "getProp proto (Obj props) part =
     (case map_of props part of
        Some v \<Rightarrow> Inr v
      | None \<Rightarrow> Inr (proto (Obj props) part))"
| "getProp proto v part = Inr (proto v part)"

text \<open>The prototype chain of plain data read by names no prototype defines.\<close>

definition noInherited :: proto where
  "noInherited v part = Undefined"

section \<open>The interpreted accessor\<close>

text \<open>
  \<^verbatim>\<open>Array.prototype.reduce\<close> with an initial value, for a callback that may throw:
  the first exception ends the loop.
\<close>

fun reduce :: "('b \<Rightarrow> 'a \<Rightarrow> js_error + 'b) \<Rightarrow> 'a list \<Rightarrow> 'b \<Rightarrow> js_error + 'b" where
  "reduce f [] acc = Inr acc"
| "reduce f (x # xs) acc =
     (case f acc x of
        Inl e \<Rightarrow> Inl e
      | Inr acc' \<Rightarrow> reduce f xs acc')"

text \<open>The callback \<^verbatim>\<open>(acc, part) => acc && acc[part]\<close>.\<close>

definition andProp :: "proto \<Rightarrow> jsval \<Rightarrow> string \<Rightarrow> js_error + jsval" where
  "andProp proto acc part = (if truthy acc then getProp proto acc part else Inr acc)"

text \<open>
  \<^verbatim>\<open>
  function compliantPropGetter(paths: string[]): (x: any) => any {
    const copyOfPaths = paths.slice();
    return obj => copyOfPaths.reduce((acc: any, part: string) => acc && acc[part], obj);
  }
  \<close>
\<close>

definition compliantPropGetter :: "proto \<Rightarrow> string list \<Rightarrow> jsval \<Rightarrow> js_error + jsval" where
  "compliantPropGetter proto paths =
     (let copyOfPaths = paths
      in (\<lambda>obj. reduce (andProp proto) copyOfPaths obj))"

section \<open>The compiled accessor\<close>

text \<open>
  \<^verbatim>\<open>
  function fastPropGetter(paths: string[]): (x: any) => any {
    const segments = paths;
    let seg = 'store.' + segments[0];
    let i = 0;
    const l = segments.length;

    let expr = seg;
    while (++i < l) {
      expr = expr + ' && ' + (seg = seg + '.' + segments[i]);
    }

    const fn = new Function('store', 'return ' + expr + ';');

    return <(x: any) => any>fn;
  }
  \<close>
  The function writes JavaScript source text and hands it to \<^verbatim>\<open>new Function\<close>, so
  the model keeps the text: the loop below builds the same string, and the string is then
  read by a tokenizer, a parser and an evaluator for the part of JavaScript that member
  chains joined by \<^verbatim>\<open>&&\<close> need.
\<close>

text \<open>
  \<^verbatim>\<open>segments[i]\<close> inside a string concatenation: an index past the end reads
  \<^verbatim>\<open>undefined\<close>, which \<^verbatim>\<open>+\<close> prints as the nine letters.
\<close>

definition segmentText :: "string list \<Rightarrow> nat \<Rightarrow> string" where
  "segmentText segments i = (if i < length segments then segments ! i else ''undefined'')"

text \<open>The \<^verbatim>\<open>while (++i < l)\<close> loop, on the variables \<open>i\<close>, \<open>seg\<close> and \<open>expr\<close>.\<close>

function fastPropGetter_while :: "string list \<Rightarrow> nat \<Rightarrow> string \<Rightarrow> string \<Rightarrow> string" where
  "fastPropGetter_while segments i seg expr =
     (let i = i + 1
      in if i < length segments
         then (let seg = seg @ ''.'' @ segmentText segments i
               in fastPropGetter_while segments i seg (expr @ '' && '' @ seg))
         else expr)"
  by pat_completeness auto
termination
  by (relation "measure (\<lambda>(segments, i, seg, expr). length segments - i)") auto

subsection \<open>The fragment of JavaScript the generated text is read in\<close>

text \<open>
  Tokens: identifier names (ASCII letters, digits, \<open>_\<close> and \<open>$\<close>, not starting with a
  digit), the dot, and the operator \<^verbatim>\<open>&&\<close> written with one blank on each side, as
  the loop writes it. Any other text has no tokens in the fragment (\<open>None\<close>):
  JavaScript may reject it or may read it as some other program, and the model says
  nothing about it.
\<close>

datatype token = TIdent string | TDot | TAnd

definition isIdentStart :: "char \<Rightarrow> bool" where
  "isIdentStart c = (c \<in> set ''abcdefghijklmnopqrstuvwxyzABCDEFGHIJKLMNOPQRSTUVWXYZ_$'')"

definition isIdentPart :: "char \<Rightarrow> bool" where
  "isIdentPart c = (isIdentStart c \<or> c \<in> set ''0123456789'')"

definition isIdentifierName :: "string \<Rightarrow> bool" where
  "isIdentifierName s =
     (case s of
        [] \<Rightarrow> False
      | c # cs \<Rightarrow> isIdentStart c \<and> list_all isIdentPart cs)"

function tokenize :: "string \<Rightarrow> token list option" where
  "tokenize [] = Some []"
| "tokenize (c # cs) =
     (if c = CHR ''.'' then map_option (Cons TDot) (tokenize cs)
      else if isIdentStart c
      then map_option (Cons (TIdent (c # takeWhile isIdentPart cs)))
             (tokenize (dropWhile isIdentPart cs))
      else if take 4 (c # cs) = '' && '' then map_option (Cons TAnd) (tokenize (drop 3 cs))
      else None)"
  by pat_completeness auto
termination
  by (relation "measure length") (auto simp: less_Suc_eq_le length_dropWhile_le)

text \<open>
  Expressions: the parameter \<^verbatim>\<open>store\<close>, member access \<^verbatim>\<open>e.x\<close>, and
  \<^verbatim>\<open>a && b\<close>, which associates to the left and binds weaker than member access.
\<close>

datatype jsexpr = Store | Member jsexpr string | And jsexpr jsexpr

fun parseMember :: "jsexpr \<Rightarrow> token list \<Rightarrow> jsexpr \<times> token list" where
  "parseMember e (TDot # TIdent x # ts) = parseMember (Member e x) ts"
| "parseMember e ts = (e, ts)"

fun parsePrimary :: "token list \<Rightarrow> (jsexpr \<times> token list) option" where
  "parsePrimary (TIdent x # ts) = (if x = ''store'' then Some (parseMember Store ts) else None)"
| "parsePrimary ts = None"

lemma parseMember_length: "length (snd (parseMember e ts)) \<le> length ts"
  by (induction e ts rule: parseMember.induct) auto

lemma parsePrimary_length: "parsePrimary ts = Some (r, ts') \<Longrightarrow> length ts' < length ts"
  using parseMember_length [of Store "tl ts"]
  by (cases ts rule: parsePrimary.cases) (auto split: if_splits simp: less_Suc_eq_le)

function parseAnd :: "jsexpr \<Rightarrow> token list \<Rightarrow> jsexpr option" where
  "parseAnd l [] = Some l"
| "parseAnd l (TAnd # ts) =
     (case parsePrimary ts of
        None \<Rightarrow> None
      | Some (r, ts') \<Rightarrow> parseAnd (And l r) ts')"
| "parseAnd l (TIdent x # ts) = None"
| "parseAnd l (TDot # ts) = None"
  by pat_completeness auto
termination
  by (relation "measure (\<lambda>(l, ts). length ts)") (auto dest: parsePrimary_length)

definition parseExpr :: "token list \<Rightarrow> jsexpr option" where
  "parseExpr ts =
     (case parsePrimary ts of
        None \<Rightarrow> None
      | Some (e, ts') \<Rightarrow> parseAnd e ts')"

text \<open>
  Evaluation, with \<open>store\<close> the argument of the call. \<^verbatim>\<open>a && b\<close> gives the value
  of \<open>a\<close> when that is falsy and the value of \<open>b\<close> otherwise; a member access on
  \<^verbatim>\<open>null\<close> or \<^verbatim>\<open>undefined\<close> throws.
\<close>

fun evalExpr :: "proto \<Rightarrow> jsexpr \<Rightarrow> jsval \<Rightarrow> js_error + jsval" where
  "evalExpr proto Store store = Inr store"
| "evalExpr proto (Member e x) store =
     (case evalExpr proto e store of
        Inl err \<Rightarrow> Inl err
      | Inr v \<Rightarrow> getProp proto v x)"
| "evalExpr proto (And a b) store =
     (case evalExpr proto a store of
        Inl err \<Rightarrow> Inl err
      | Inr v \<Rightarrow> if truthy v then evalExpr proto b store else Inr v)"

text \<open>
  \<^verbatim>\<open>new Function('store', body)\<close> for a body of the form \<^verbatim>\<open>return e;\<close> with
  \<open>e\<close> in the fragment: the function that evaluates \<open>e\<close>. \<open>None\<close> for any other body.
\<close>

definition newFunction :: "proto \<Rightarrow> string \<Rightarrow> (jsval \<Rightarrow> js_error + jsval) option" where
  "newFunction proto body =
     (if take 7 body = ''return '' \<and> 7 < length body \<and> last body = CHR '';''
      then map_option (\<lambda>e. evalExpr proto e)
             (Option.bind (tokenize (butlast (drop 7 body))) parseExpr)
      else None)"

definition fastPropGetter :: "proto \<Rightarrow> string list \<Rightarrow> (jsval \<Rightarrow> js_error + jsval) option" where
  "fastPropGetter proto paths =
     (let segments = paths;
          seg = ''store.'' @ segmentText segments 0;
          i = 0;
          expr = fastPropGetter_while segments i seg seg
      in newFunction proto (''return '' @ expr @ '';''))"

text \<open>Calling the accessor a strategy returned, when it returned one.\<close>

definition invoke ::
  "(jsval \<Rightarrow> js_error + jsval) option \<Rightarrow> jsval \<Rightarrow> (js_error + jsval) option" where
  "invoke getter store = map_option (\<lambda>fn. fn store) getter"

section \<open>Choosing the strategy\<close>

text \<open>
  \<^verbatim>\<open>
  export function propGetter(paths: string[], config: NgxsConfig) {
    if (config && config.compatibility && config.compatibility.strictContentSecurityPolicy) {
      return compliantPropGetter(paths);
    } else {
      return fastPropGetter(paths);
    }
  }
  \<close>
  \<^verbatim>\<open>NgxsConfig\<close> is declared in \<^verbatim>\<open>../symbols\<close>; of it the code reads the
  optional \<^verbatim>\<open>compatibility\<close> object and its boolean flag. A missing configuration
  or a missing \<^verbatim>\<open>compatibility\<close> is \<open>None\<close>.
\<close>

record Compatibility =
  strictContentSecurityPolicy :: bool

record NgxsConfig =
  compatibility :: "Compatibility option"

definition propGetter ::
  "proto \<Rightarrow> string list \<Rightarrow> NgxsConfig option \<Rightarrow> (jsval \<Rightarrow> js_error + jsval) option" where
  "propGetter proto paths config =
     (if (case config of
            None \<Rightarrow> False
          | Some c \<Rightarrow>
              (case compatibility c of
                 None \<Rightarrow> False
               | Some k \<Rightarrow> strictContentSecurityPolicy k))
      then Some (compliantPropGetter proto paths)
      else fastPropGetter proto paths)"

section \<open>The adjacency map\<close>

text \<open>
  \<^verbatim>\<open>export type StateKeyGraph = PlainObjectOf<string[]>;\<close>

  A plain object from state names to the names of their children, made by an object
  literal as \<open>buildGraph\<close> makes it, so that its prototype is \<^verbatim>\<open>Object.prototype\<close>.
  The model is the list of its own properties in the order in which \<^verbatim>\<open>for ... in\<close>
  and \<^verbatim>\<open>Object.keys\<close> enumerate them: canonical array indices in ascending order,
  then the other names in the order they were added. A name is the key of one property;
  where a list repeats a key, \<open>map_of\<close> reads the first entry. The objects
  \<^verbatim>\<open>visited\<close> and \<^verbatim>\<open>newObj\<close> of the functions below are plain objects too.
\<close>

type_synonym StateKeyGraph = "(string \<times> string list) list"

text \<open>
  The names of the properties of \<^verbatim>\<open>Object.prototype\<close>, which every plain object
  inherits: the methods of the ECMAScript standard and its legacy accessors. None is
  enumerable, so \<^verbatim>\<open>for ... in\<close> and \<^verbatim>\<open>Object.keys\<close> pass over them. A read
  \<^verbatim>\<open>obj[key]\<close> of a name the object does not own finds them: each is a function,
  except that \<^verbatim>\<open>__proto__\<close> reads as the prototype object itself. So every such read
  is truthy, and none gives an array.
\<close>

definition objectPrototype :: "string list" where
  "objectPrototype =
     [''constructor'', ''hasOwnProperty'', ''isPrototypeOf'', ''propertyIsEnumerable'',
      ''toLocaleString'', ''toString'', ''valueOf'', ''__proto__'', ''__defineGetter__'',
      ''__defineSetter__'', ''__lookupGetter__'', ''__lookupSetter__'']"

text \<open>
  The call \<^verbatim>\<open>obj.hasOwnProperty(key)\<close> on a plain object. The method is read from the
  object like any property: an own property named \<^verbatim>\<open>hasOwnProperty\<close> hides the method
  of \<^verbatim>\<open>Object.prototype\<close>, and its value (an array of names or a string here) is no
  function, so the call throws.
\<close>

definition hasOwnProperty :: "(string \<times> 'v) list \<Rightarrow> string \<Rightarrow> js_error + bool" where
  "hasOwnProperty obj key =
     (case map_of obj ''hasOwnProperty'' of
        Some v \<Rightarrow> Inl TypeError
      | None \<Rightarrow> Inr (map_of obj key \<noteq> None))"

text \<open>
  The own properties of a plain object after the assignment \<^verbatim>\<open>obj[key] = v\<close>. An own
  property is updated in place and a new name is appended, also a name that
  \<^verbatim>\<open>Object.prototype\<close> defines, whose properties are writable. The exception is
  \<^verbatim>\<open>__proto__\<close>: on an object that does not own that name the assignment runs the
  setter of \<^verbatim>\<open>Object.prototype\<close>, which stores no property. It ignores a primitive
  (\<^verbatim>\<open>true\<close> and the path strings below); an array it makes the prototype of the
  object, which the list of own properties does not show.
\<close>

definition setProp :: "string \<Rightarrow> 'v \<Rightarrow> (string \<times> 'v) list \<Rightarrow> (string \<times> 'v) list" where
  "setProp key v obj =
     (if key = ''__proto__'' \<and> map_of obj key = None then obj else AList.update key v obj)"

text \<open>\<^verbatim>\<open>Array.prototype.indexOf\<close>: the first position of the element, or \<open>-1\<close>.\<close>

fun indexOf :: "'a list \<Rightarrow> 'a \<Rightarrow> int" where
  "indexOf [] x = - 1"
| "indexOf (y # ys) x =
     (if y = x then 0
      else (let i = indexOf ys x in if i < 0 then - 1 else i + 1))"

section \<open>Full paths\<close>

text \<open>
  \<^verbatim>\<open>
  export function findFullParentPath(
    obj: StateKeyGraph,
    newObj: PlainObjectOf<string> = {}
  ): PlainObjectOf<string> {
    const visit = (child: StateKeyGraph, keyToFind: string): string | null => {
      for (const key in child) {
        if (child.hasOwnProperty(key) && child[key].indexOf(keyToFind) >= 0) {
          const parent = visit(child, key);
          return parent !== null ? `${parent}.${key}` : key;
        }
      }
      return null;
    };

    for (const key in obj) {
      if (obj.hasOwnProperty(key)) {
        const parent = visit(obj, key);
        newObj[key] = parent ? `${parent}.${key}` : key;
      }
    }

    return newObj;
  }
  \<close>
  The loop \<^verbatim>\<open>for (const key in child)\<close> of the inner \<^verbatim>\<open>visit\<close>, over the
  properties that are left, \<^verbatim>\<open>child[key]\<close> being the list paired with the key. It
  ends at the first key whose list holds \<^verbatim>\<open>keyToFind\<close> and gives that key, or
  \<open>None\<close> when it runs to the end; the call of \<^verbatim>\<open>hasOwnProperty\<close>, the left operand
  of \<^verbatim>\<open>&&\<close>, comes first at every key and may throw.
\<close>

fun findFullParentPath_loop ::
  "StateKeyGraph \<Rightarrow> (string \<times> string list) list \<Rightarrow> string \<Rightarrow> js_error + string option" where
  "findFullParentPath_loop child [] keyToFind = Inr None"
| "findFullParentPath_loop child ((key, deps) # rest) keyToFind =
     (case hasOwnProperty child key of
        Inl e \<Rightarrow> Inl e
      | Inr own \<Rightarrow>
          if own \<and> indexOf deps keyToFind \<ge> 0 then Inr (Some key)
          else findFullParentPath_loop child rest keyToFind)"

text \<open>
  The inner \<^verbatim>\<open>visit\<close> calls itself on the key the loop ended at. Nothing bounds the
  recursion: on a map where the first parents run in a circle it never returns (the
  engine ends it with a stack overflow), so it is a partial function and \<open>None\<close> is
  "does not return". What it returns is \<^verbatim>\<open>string | null\<close>, an option of its own.
\<close>

partial_function (option) findFullParentPath_visit ::
  "StateKeyGraph \<Rightarrow> string \<Rightarrow> (js_error + string option) option" where
  "findFullParentPath_visit child keyToFind =
     (case findFullParentPath_loop child child keyToFind of
        Inl e \<Rightarrow> Some (Inl e)
      | Inr None \<Rightarrow> Some (Inr None)
      | Inr (Some key) \<Rightarrow>
          Option.bind (findFullParentPath_visit child key)
            (\<lambda>r. Some (case r of
                         Inl e \<Rightarrow> Inl e
                       | Inr parent \<Rightarrow>
                           Inr (Some (case parent of None \<Rightarrow> key | Some p \<Rightarrow> p @ ''.'' @ key)))))"

declare findFullParentPath_visit.simps [code]

text \<open>
  The outer loop over the keys of \<open>obj\<close>. Its test \<^verbatim>\<open>parent ? ... : key\<close> is on
  truthiness: \<^verbatim>\<open>null\<close> and the empty string both give \<open>key\<close>. \<open>newObj\<close> is an
  object of its own, by default a new \<^verbatim>\<open>{}\<close>.
\<close>

fun findFullParentPath_for ::
  "StateKeyGraph \<Rightarrow> string list \<Rightarrow> (string \<times> string) list \<Rightarrow>
     (js_error + (string \<times> string) list) option" where
  "findFullParentPath_for obj [] newObj = Some (Inr newObj)"
| "findFullParentPath_for obj (key # keys) newObj =
     (case hasOwnProperty obj key of
        Inl e \<Rightarrow> Some (Inl e)
      | Inr own \<Rightarrow>
          if own
          then (case findFullParentPath_visit obj key of
                  None \<Rightarrow> None
                | Some (Inl e) \<Rightarrow> Some (Inl e)
                | Some (Inr parent) \<Rightarrow>
                    findFullParentPath_for obj keys
                      (setProp key
                         (case parent of
                            None \<Rightarrow> key
                          | Some p \<Rightarrow> if p \<noteq> [] then p @ ''.'' @ key else key)
                         newObj))
          else findFullParentPath_for obj keys newObj)"

definition findFullParentPath ::
  "StateKeyGraph \<Rightarrow> (string \<times> string) list \<Rightarrow> (js_error + (string \<times> string) list) option" where
  "findFullParentPath obj newObj = findFullParentPath_for obj (map fst obj) newObj"

section \<open>Topological sort\<close>

text \<open>
  \<^verbatim>\<open>
  export function topologicalSort(graph: StateKeyGraph): string[] {
    const sorted: string[] = [];
    const visited: PlainObjectOf<boolean> = {};

    const visit = (name: string, ancestors: string[] = []) => {
      if (!Array.isArray(ancestors)) {
        ancestors = [];
      }

      ancestors.push(name);
      visited[name] = true;

      graph[name].forEach((dep: string) => {
        if ((typeof ngDevMode === 'undefined' || ngDevMode) && ancestors.indexOf(dep) >= 0) {
          throw new Error(
            `Circular dependency '${dep}' is required by '${name}': ${ancestors.join(' -> ')}`
          );
        }

        if (visited[dep]) {
          return;
        }

        visit(dep, ancestors.slice(0));
      });

      if (sorted.indexOf(name) < 0) {
        sorted.push(name);
      }
    };

    Object.keys(graph).forEach(k => visit(k));

    return sorted.reverse();
  }
  \<close>
\<close>

text \<open>\<^verbatim>\<open>Array.prototype.join\<close> on strings.\<close>

fun join :: "string \<Rightarrow> string list \<Rightarrow> string" where
  "join sep [] = []"
| "join sep [x] = x"
| "join sep (x # y # ys) = x @ sep @ join sep (y # ys)"

text \<open>
  \<^verbatim>\<open>ngDevMode\<close> is a global of the framework, declared outside this repository: not
  defined at all (\<open>None\<close>), or defined and truthy or falsy (production builds set it to
  \<^verbatim>\<open>false\<close>). The guard \<^verbatim>\<open>typeof ngDevMode === 'undefined' || ngDevMode\<close>:
\<close>

definition ngDevModeOn :: "bool option \<Rightarrow> bool" where
  "ngDevModeOn ngDevMode = (case ngDevMode of None \<Rightarrow> True | Some b \<Rightarrow> b)"

text \<open>The message of the error; \<open>CHR 0x27\<close> is the single quote.\<close>

definition circularMessage :: "string \<Rightarrow> string \<Rightarrow> string list \<Rightarrow> string" where
  "circularMessage dep name ancestors =
     ''Circular dependency '' @ [CHR 0x27] @ dep @ [CHR 0x27] @ '' is required by '' @
     [CHR 0x27] @ name @ [CHR 0x27] @ '': '' @ join '' -> '' ancestors"

text \<open>
  The two variables the closure \<^verbatim>\<open>visit\<close> updates: the array \<^verbatim>\<open>sorted\<close> and the
  object \<^verbatim>\<open>visited\<close> (their names carry a suffix, \<open>sorted\<close> being a constant of the
  library).
\<close>

record sort_state =
  sorted_arr :: "string list"
  visited_obj :: "(string \<times> bool) list"

text \<open>
  The test \<^verbatim>\<open>if (visited[dep])\<close>. \<^verbatim>\<open>visited\<close> is a plain object: the read gives
  the own property when there is one, and for a name that \<^verbatim>\<open>Object.prototype\<close>
  defines the inherited function or object, which is truthy.
\<close>

definition isVisited :: "sort_state \<Rightarrow> string \<Rightarrow> bool" where
  "isVisited st dep =
     (case map_of (visited_obj st) dep of
        Some b \<Rightarrow> b
      | None \<Rightarrow> dep \<in> set objectPrototype)"

text \<open>
  \<^verbatim>\<open>visit\<close> and the \<^verbatim>\<open>forEach\<close> over \<^verbatim>\<open>graph[name]\<close> inside it call each other.
  \<^verbatim>\<open>ancestors\<close> is a fresh copy in each call (\<^verbatim>\<open>slice(0)\<close>, or the default
  \<^verbatim>\<open>[]\<close>) and always an array, so the \<^verbatim>\<open>push\<close> is local to the call.
  \<^verbatim>\<open>graph[name]\<close> of a name that is no key of the map is \<^verbatim>\<open>undefined\<close>, or what
  \<^verbatim>\<open>Object.prototype\<close> holds under that name, which has no \<^verbatim>\<open>forEach\<close>: the call
  \<^verbatim>\<open>graph[name].forEach(...)\<close> throws in both cases.
\<close>

function topologicalSort_visit ::
    "bool option \<Rightarrow> StateKeyGraph \<Rightarrow> string \<Rightarrow> string list \<Rightarrow> sort_state \<Rightarrow> js_error + sort_state"
  and topologicalSort_forEach ::
    "bool option \<Rightarrow> StateKeyGraph \<Rightarrow> string \<Rightarrow> string list \<Rightarrow> string list \<Rightarrow> sort_state \<Rightarrow>
       js_error + sort_state"
  where
  "topologicalSort_visit ngDevMode graph name ancestors st =
     (let ancestors = ancestors @ [name];
          st = st\<lparr>visited_obj := setProp name True (visited_obj st)\<rparr>
      in case map_of graph name of
           None \<Rightarrow> Inl TypeError
         | Some deps \<Rightarrow>
             (case topologicalSort_forEach ngDevMode graph name ancestors deps st of
                Inl e \<Rightarrow> Inl e
              | Inr st \<Rightarrow>
                  Inr (if indexOf (sorted_arr st) name < 0
                       then st\<lparr>sorted_arr := sorted_arr st @ [name]\<rparr>
                       else st)))"
| "topologicalSort_forEach ngDevMode graph name ancestors [] st = Inr st"
| "topologicalSort_forEach ngDevMode graph name ancestors (dep # deps) st =
     (if ngDevModeOn ngDevMode \<and> indexOf ancestors dep \<ge> 0
      then Inl (Error (circularMessage dep name ancestors))
      else if isVisited st dep
      then topologicalSort_forEach ngDevMode graph name ancestors deps st
      else (case topologicalSort_visit ngDevMode graph dep ancestors st of
              Inl e \<Rightarrow> Inl e
            | Inr st \<Rightarrow> topologicalSort_forEach ngDevMode graph name ancestors deps st))"
  by pat_completeness auto

text \<open>
  Termination. A nested \<^verbatim>\<open>visit\<close> is entered only for a name that does not read as
  visited, and it marks the name first: the keys of the map that do not read as visited
  get fewer, and a name that is no key ends the call at once. The \<^verbatim>\<open>forEach\<close> goes on
  in the state the nested visit returned, so the measure needs that a visit never
  unmarks a name.
\<close>

definition unvisited :: "StateKeyGraph \<Rightarrow> sort_state \<Rightarrow> string set" where
  "unvisited graph st = {k \<in> set (map fst graph). \<not> isVisited st k}"

fun sort_measure ::
  "bool option \<times> StateKeyGraph \<times> string \<times> string list \<times> sort_state +
   bool option \<times> StateKeyGraph \<times> string \<times> string list \<times> string list \<times> sort_state \<Rightarrow>
   nat \<times> nat \<times> nat" where
  "sort_measure (Inl (ngDevMode, graph, n, ancestors, st)) =
     (case map_of graph n of
        None \<Rightarrow> (0, 0, 0)
      | Some deps \<Rightarrow> (card (unvisited graph st - {n}), 1, 0))"
| "sort_measure (Inr (ngDevMode, graph, n, ancestors, deps, st)) =
     (card (unvisited graph st), 0, Suc (length deps))"

lemma isVisited_mark:
  "isVisited (st\<lparr>visited_obj := setProp n True (visited_obj st)\<rparr>) k = (k = n \<or> isVisited st k)"
  by (auto simp: isVisited_def setProp_def update_conv' objectPrototype_def split: option.splits)

lemma unvisited_mark:
  "unvisited graph (st\<lparr>visited_obj := setProp n True (visited_obj st)\<rparr>) = unvisited graph st - {n}"
  by (auto simp: unvisited_def isVisited_mark)

lemma finite_unvisited [simp]: "finite (unvisited graph st)"
  by (simp add: unvisited_def)

lemma visited_grows_dom:
  "topologicalSort_visit_topologicalSort_forEach_dom (Inl (ngDevMode, graph, n, ancestors, st)) \<Longrightarrow>
   topologicalSort_visit ngDevMode graph n ancestors st = Inr st' \<Longrightarrow>
   isVisited st k \<Longrightarrow> isVisited st' k"
  "topologicalSort_visit_topologicalSort_forEach_dom (Inr (ngDevMode, graph, n, ancestors, deps, st)) \<Longrightarrow>
   topologicalSort_forEach ngDevMode graph n ancestors deps st = Inr st' \<Longrightarrow>
   isVisited st k \<Longrightarrow> isVisited st' k"
proof (induct arbitrary: st' and st' rule: topologicalSort_visit_topologicalSort_forEach.pinduct)
  case (1 ngDevMode graph n ancestors st)
  let ?st = "st\<lparr>visited_obj := setProp n True (visited_obj st)\<rparr>"
  from "1.prems"(1) "1.hyps"(1) obtain deps st2 where
    deps: "map_of graph n = Some deps" and
    st2: "topologicalSort_forEach ngDevMode graph n (ancestors @ [n]) deps ?st = Inr st2" and
    st': "st' = (if indexOf (sorted_arr st2) n < 0 then st2\<lparr>sorted_arr := sorted_arr st2 @ [n]\<rparr> else st2)"
    by (auto simp: topologicalSort_visit.psimps Let_def split: option.splits sum.splits)
  have "isVisited ?st k"
    using "1.prems"(2) by (simp add: isVisited_mark)
  from "1.hyps"(2) [OF refl refl deps st2 this] st' show ?case
    by (auto simp: isVisited_def)
next
  case (2 ngDevMode graph n ancestors st)
  then show ?case
    by (simp add: topologicalSort_forEach.psimps)
next
  case (3 ngDevMode graph n ancestors dep deps st)
  from "3.prems"(1) "3.hyps"(1) have
    ok: "\<not> (ngDevModeOn ngDevMode \<and> 0 \<le> indexOf ancestors dep)"
    by (auto simp: topologicalSort_forEach.psimps split: if_splits)
  show ?case
  proof (cases "isVisited st dep")
    case True
    with "3.prems"(1) "3.hyps"(1) ok
    have "topologicalSort_forEach ngDevMode graph n ancestors deps st = Inr st'"
      by (auto simp: topologicalSort_forEach.psimps split: if_splits)
    from "3.hyps"(2) [OF ok True this "3.prems"(2)] show ?thesis .
  next
    case False
    with "3.prems"(1) "3.hyps"(1) ok obtain st1 where
      st1: "topologicalSort_visit ngDevMode graph dep ancestors st = Inr st1" and
      rest: "topologicalSort_forEach ngDevMode graph n ancestors deps st1 = Inr st'"
      by (auto simp: topologicalSort_forEach.psimps split: if_splits sum.splits)
    from "3.hyps"(3) [OF ok False st1 "3.prems"(2)] have "isVisited st1 k" .
    from "3.hyps"(4) [OF ok False st1 rest this] show ?thesis .
  qed
qed

lemma unvisited_shrinks_dom:
  assumes "topologicalSort_visit_topologicalSort_forEach_dom (Inl (ngDevMode, graph, n, ancestors, st))"
    and "topologicalSort_visit ngDevMode graph n ancestors st = Inr st'"
  shows "card (unvisited graph st') \<le> card (unvisited graph st)"
proof (rule card_mono)
  show "unvisited graph st' \<subseteq> unvisited graph st"
    using visited_grows_dom(1) [OF assms] by (auto simp: unvisited_def)
qed simp

termination topologicalSort_visit
proof (relation "inv_image (less_than <*lex*> less_than <*lex*> less_than) sort_measure")
  show "wf (inv_image (less_than <*lex*> less_than <*lex*> less_than) sort_measure)"
    by (intro wf_inv_image wf_lex_prod wf_less_than)
next
  fix ngDevMode :: "bool option" and graph :: StateKeyGraph and n ancestors x x2
    and st xa :: sort_state
  assume "x = ancestors @ [n]"
    and "xa = st\<lparr>visited_obj := setProp n True (visited_obj st)\<rparr>"
    and "map_of graph n = Some x2"
  then show "(Inr (ngDevMode, graph, n, x, x2, xa), Inl (ngDevMode, graph, n, ancestors, st))
          \<in> inv_image (less_than <*lex*> less_than <*lex*> less_than) sort_measure"
    by (simp add: unvisited_mark)
next
  fix ngDevMode :: "bool option" and graph :: StateKeyGraph and n ancestors dep deps
    and st :: sort_state
  show "(Inr (ngDevMode, graph, n, ancestors, deps, st), Inr (ngDevMode, graph, n, ancestors, dep # deps, st))
          \<in> inv_image (less_than <*lex*> less_than <*lex*> less_than) sort_measure"
    by simp
next
  fix ngDevMode :: "bool option" and graph :: StateKeyGraph and n ancestors dep deps
    and st :: sort_state
  assume nv: "\<not> isVisited st dep"
  show "(Inl (ngDevMode, graph, dep, ancestors, st), Inr (ngDevMode, graph, n, ancestors, dep # deps, st))
          \<in> inv_image (less_than <*lex*> less_than <*lex*> less_than) sort_measure"
  proof (cases "map_of graph dep")
    case None
    then show ?thesis by (auto simp: card_gt_0_iff)
  next
    case (Some ds)
    then have "dep \<in> set (map fst graph)"
      by (force dest: map_of_SomeD)
    with nv have "dep \<in> unvisited graph st"
      by (simp add: unvisited_def)
    then have "card (unvisited graph st - {dep}) < card (unvisited graph st)"
      by (intro card_Diff1_less finite_unvisited)
    with Some show ?thesis by simp
  qed
next
  fix ngDevMode :: "bool option" and graph :: StateKeyGraph and n ancestors dep deps
    and st b :: sort_state
  assume "topologicalSort_visit ngDevMode graph dep ancestors st = Inr b"
    and "topologicalSort_visit_topologicalSort_forEach_dom (Inl (ngDevMode, graph, dep, ancestors, st))"
  from unvisited_shrinks_dom [OF this(2) this(1)]
  show "(Inr (ngDevMode, graph, n, ancestors, deps, b), Inr (ngDevMode, graph, n, ancestors, dep # deps, st))
          \<in> inv_image (less_than <*lex*> less_than <*lex*> less_than) sort_measure"
    by auto
qed

text \<open>
  \<^verbatim>\<open>Object.keys(graph).forEach(k => visit(k))\<close>: every key is visited, also one that
  an earlier visit reached, each time with a fresh \<^verbatim>\<open>ancestors\<close>.
\<close>

fun topologicalSort_keys ::
  "bool option \<Rightarrow> StateKeyGraph \<Rightarrow> string list \<Rightarrow> sort_state \<Rightarrow> js_error + sort_state" where
  "topologicalSort_keys ngDevMode graph [] st = Inr st"
| "topologicalSort_keys ngDevMode graph (k # ks) st =
     (case topologicalSort_visit ngDevMode graph k [] st of
        Inl e \<Rightarrow> Inl e
      | Inr st \<Rightarrow> topologicalSort_keys ngDevMode graph ks st)"

text \<open>The function itself; it returns \<^verbatim>\<open>sorted.reverse()\<close>.\<close>

definition topologicalSort :: "bool option \<Rightarrow> StateKeyGraph \<Rightarrow> js_error + string list" where
  "topologicalSort ngDevMode graph =
     (let sorted = [];
          visited = []
      in case topologicalSort_keys ngDevMode graph (map fst graph)
                \<lparr>sorted_arr = sorted, visited_obj = visited\<rparr> of
           Inl e \<Rightarrow> Inl e
         | Inr st \<Rightarrow> Inr (rev (sorted_arr st)))"



section \<open>The metadata store\<close>

text \<open>
  A state class is an object with an identity, and so is the metadata record attached to
  it: the claims about the store are about which record a call returns and about who sees
  a write. The model is a heap. A class is its identity (a number); its own property
  \<^verbatim>\<open>META_KEY\<close>, when it has one, holds the address of a record; the records live in a
  list and the address of a record is its position. \<^verbatim>\<open>String(stateClass)\<close>, which the
  error message of \<open>buildGraph\<close> prints, is the source text of the class.

  \<^verbatim>\<open>
  export interface MetaDataModel {
    name: string | null;
    actions: PlainObjectOf<ActionHandlerMetaData[]>;
    defaults: any;
    path: string | null;
    makeRootSelector: SelectorFactory | null;
    children?: StateClassInternal[];
  }
  \<close>
  \<^verbatim>\<open>ActionHandlerMetaData\<close> is declared in \<^verbatim>\<open>../actions/symbols\<close>; nothing here looks
  inside it. The only selector factory this file makes is the one of the default record,
  which asks the context for the state getter of the name the record has when called: it
  is kept as the address of that record.
\<close>

type_synonym stateClass = nat

type_synonym ref = nat

typedecl ActionHandlerMetaData

datatype SelectorFactory = StateGetterOfName ref

record MetaDataModel =
  name :: "string option"
  actions :: "(string \<times> ActionHandlerMetaData list) list"
  defaults :: jsval
  path :: "string option"
  makeRootSelector :: "SelectorFactory option"
  children :: "stateClass list option"

record heap =
  metaKey :: "stateClass \<Rightarrow> ref option"
  records :: "MetaDataModel list"
  classText :: "stateClass \<Rightarrow> string"

text \<open>Reading the record at an address, and the assignment \<^verbatim>\<open>meta.path = p\<close>.\<close>

definition deref :: "heap \<Rightarrow> ref \<Rightarrow> MetaDataModel option" where
  "deref h r = (if r < length (records h) then Some (records h ! r) else None)"




section \<open>Building the graph\<close>

text \<open>
  \<^verbatim>\<open>
  export function buildGraph(stateClasses: StateClassInternal[]): StateKeyGraph {
    const findName = (stateClass: StateClassInternal) => {
      const meta = stateClasses.find(g => g === stateClass);

      if ((typeof ngDevMode === 'undefined' || ngDevMode) && !meta) {
        throw new Error(
          `Child state not found: ${stateClass}. \r\nYou may have forgotten to add states to module`
        );
      }

      return meta![META_KEY]!.name!;
    };

    return stateClasses.reduce<StateKeyGraph>(
      (result: StateKeyGraph, stateClass: StateClassInternal) => {
        const { name, children } = stateClass[META_KEY]!;
        result[name!] = (children || []).map(findName);
        return result;
      },
      {}
    );
  }
  \<close>
\<close>

text \<open>The message; \<open>CHR 0x0D\<close> and \<open>CHR 0x0A\<close> are \<^verbatim>\<open>\r\<close> and \<^verbatim>\<open>\n\<close>.\<close>

definition childNotFound :: "string \<Rightarrow> string" where
  "childNotFound stateClassText =
     ''Child state not found: '' @ stateClassText @ ''. '' @ [CHR 0x0D, CHR 0x0A] @
     ''You may have forgotten to add states to module''"

text \<open>\<^verbatim>\<open>stateClass[META_KEY]\<close>: the record of the class, if it has one.\<close>

definition metaOf :: "heap \<Rightarrow> stateClass \<Rightarrow> MetaDataModel option" where
  "metaOf h stateClass = Option.bind (metaKey h stateClass) (deref h)"

text \<open>
  The closure \<^verbatim>\<open>findName\<close>. Without the guarded \<^verbatim>\<open>throw\<close>, a class that is not
  in the list leaves \<^verbatim>\<open>meta\<close> undefined and the property read on it throws a
  \<^verbatim>\<open>TypeError\<close>. The value returned is \<^verbatim>\<open>string | null\<close>: the non-null assertions
  of TypeScript check nothing.
\<close>

definition findName ::
  "bool option \<Rightarrow> heap \<Rightarrow> stateClass list \<Rightarrow> stateClass \<Rightarrow> js_error + string option" where
  "findName ngDevMode h stateClasses stateClass =
     (let meta = find (\<lambda>g. g = stateClass) stateClasses
      in if ngDevModeOn ngDevMode \<and> meta = None
         then Inl (Error (childNotFound (classText h stateClass)))
         else (case meta of
                 None \<Rightarrow> Inl TypeError
               | Some g \<Rightarrow>
                   (case metaOf h g of
                      None \<Rightarrow> Inl TypeError
                    | Some m \<Rightarrow> Inr (name m))))"

text \<open>\<^verbatim>\<open>Array.prototype.map\<close> for a callback that may throw.\<close>

fun mapE :: "('a \<Rightarrow> js_error + 'b) \<Rightarrow> 'a list \<Rightarrow> js_error + 'b list" where
  "mapE f [] = Inr []"
| "mapE f (x # xs) =
     (case f x of
        Inl e \<Rightarrow> Inl e
      | Inr y \<Rightarrow>
          (case mapE f xs of
             Inl e \<Rightarrow> Inl e
           | Inr ys \<Rightarrow> Inr (y # ys)))"

text \<open>A name used as a property key: \<^verbatim>\<open>null\<close> becomes the key \<^verbatim>\<open>"null"\<close>.\<close>

definition keyOf :: "string option \<Rightarrow> string" where
  "keyOf k = (case k of None \<Rightarrow> ''null'' | Some s \<Rightarrow> s)"

text \<open>
  The function itself: the reduction over the classes, from \<^verbatim>\<open>{}\<close>. The assignment
  \<^verbatim>\<open>result[name!] = ...\<close> is \<open>setProp\<close>, and the value returned is the list of the
  own properties of \<^verbatim>\<open>result\<close> in the order in which they were added.
\<close>

definition buildGraph ::
  "bool option \<Rightarrow> heap \<Rightarrow> stateClass list \<Rightarrow> js_error + (string \<times> string option list) list" where
  "buildGraph ngDevMode h stateClasses =
     reduce
       (\<lambda>result stateClass.
          case metaOf h stateClass of
            None \<Rightarrow> Inl TypeError
          | Some m \<Rightarrow>
              (case mapE (findName ngDevMode h stateClasses)
                      (case children m of None \<Rightarrow> [] | Some cs \<Rightarrow> cs) of
                 Inl e \<Rightarrow> Inl e
               | Inr names \<Rightarrow> Inr (setProp (keyOf (name m)) names result)))
       stateClasses []"

section \<open>The vocabulary of the statements\<close>

subsection \<open>Edges, cycles and chains of an adjacency map\<close>

text \<open>
  \<open>parent\<close> has the edge to \<open>child\<close> when \<^verbatim>\<open>graph[parent]\<close> holds \<open>child\<close>. A map is
  cyclic when some name reaches itself along one edge or more, and closed when every
  child named in it is a key of it. A chain is a list of names with an edge from each
  name to the next.
\<close>

definition isEdge :: "StateKeyGraph \<Rightarrow> string \<Rightarrow> string \<Rightarrow> bool" where
  "isEdge graph parent child =
     (case map_of graph parent of
        None \<Rightarrow> False
      | Some deps \<Rightarrow> child \<in> set deps)"

definition edges :: "StateKeyGraph \<Rightarrow> (string \<times> string) set" where
  "edges graph = {(parent, child). isEdge graph parent child}"

definition cyclic :: "StateKeyGraph \<Rightarrow> bool" where
  "cyclic graph = (\<exists>k. (k, k) \<in> (edges graph)\<^sup>+)"

definition closedGraph :: "StateKeyGraph \<Rightarrow> bool" where
  "closedGraph graph =
     list_all (\<lambda>(k, deps). list_all (\<lambda>d. d \<in> set (map fst graph)) deps) graph"

fun isChain :: "StateKeyGraph \<Rightarrow> string list \<Rightarrow> bool" where
  "isChain graph [] = True"
| "isChain graph [x] = True"
| "isChain graph (x # y # ys) = (isEdge graph x y \<and> isChain graph (y # ys))"

text \<open>
  The children of a map are plain when none of them bears a name that
  \<^verbatim>\<open>Object.prototype\<close> defines.
\<close>

definition plainChildren :: "StateKeyGraph \<Rightarrow> bool" where
  "plainChildren graph =
     list_all (\<lambda>(k, deps). list_all (\<lambda>d. d \<notin> set objectPrototype) deps) graph"

subsection \<open>First parents\<close>

text \<open>
  The first parent of a name is the first key, in enumeration order, whose list holds
  the name. A name is rooted when following first parents from it ends at a name that
  has none.
\<close>

definition firstParent :: "StateKeyGraph \<Rightarrow> string \<Rightarrow> string option" where
  "firstParent graph k = map_option fst (find (\<lambda>(key, deps). k \<in> set deps) graph)"

inductive rooted :: "StateKeyGraph \<Rightarrow> string \<Rightarrow> bool" for graph where
  root: "firstParent graph k = None \<Longrightarrow> rooted graph k"
| nested: "firstParent graph k = Some p \<Longrightarrow> rooted graph p \<Longrightarrow> rooted graph k"

subsection \<open>Heaps\<close>


definition declaredChildren :: "heap \<Rightarrow> stateClass \<Rightarrow> stateClass list" where
  "declaredChildren h c =
     (case metaOf h c of
        None \<Rightarrow> []
      | Some m \<Rightarrow> (case children m of None \<Rightarrow> [] | Some cs \<Rightarrow> cs))"


definition cartHeap :: heap where
  "cartHeap =
     \<lparr>metaKey = (\<lambda>c. if c < 3 then Some c else None),
      records =
        [\<lparr>name = Some ''cart'', actions = [], defaults = Obj [], path = None,
          makeRootSelector = Some (StateGetterOfName 0), children = Some [1]\<rparr>,
         \<lparr>name = Some ''saved'', actions = [], defaults = Obj [], path = None,
          makeRootSelector = Some (StateGetterOfName 1), children = Some [2]\<rparr>,
         \<lparr>name = Some ''items'', actions = [], defaults = Obj [], path = None,
          makeRootSelector = Some (StateGetterOfName 2), children = None\<rparr>],
      classText =
        (\<lambda>c. if c = 0 then ''class Cart {}''
             else if c = 1 then ''class CartSaved {}''
             else ''class CartSavedItems {}'')\<rparr>"

section \<open>Auxiliary functions of the proofs\<close>

text \<open>
  What the loop of \<open>fastPropGetter\<close> appends for the segments it has not read yet, as
  text and as the expression that text parses to. They serve the proofs only.
\<close>

fun exprRest :: "string \<Rightarrow> string \<Rightarrow> string list \<Rightarrow> string" where
  "exprRest seg expr [] = expr"
| "exprRest seg expr (s # rest) =
     exprRest (seg @ ''.'' @ s) (expr @ '' && '' @ seg @ ''.'' @ s) rest"

fun astRest :: "jsexpr \<Rightarrow> jsexpr \<Rightarrow> string list \<Rightarrow> jsexpr" where
  "astRest chain acc [] = acc"
| "astRest chain acc (s # rest) = astRest (Member chain s) (And acc (Member chain s)) rest"

text \<open>
  The path \<open>findFullParentPath\<close> stores for a key, from what the inner visit returns.
\<close>

definition pathOf :: "StateKeyGraph \<Rightarrow> string \<Rightarrow> string" where
  "pathOf graph k =
     (case findFullParentPath_visit graph k of
        Some (Inr (Some p)) \<Rightarrow> if p \<noteq> [] then p @ ''.'' @ k else k
      | _ \<Rightarrow> k)"

text \<open>
  The invariant of the depth-first search of \<open>topologicalSort\<close> when the guard is on:
  the names pushed are distinct and read as visited; a name that reads as visited is
  pushed, or is an ancestor of the running call, or is a name of \<^verbatim>\<open>Object.prototype\<close>;
  and a pushed name is a key all of whose children were pushed before it. One state
  extends another when it only pushed and marked more.
\<close>

definition sort_inv :: "StateKeyGraph \<Rightarrow> sort_state \<Rightarrow> string list \<Rightarrow> bool" where
  "sort_inv graph st anc =
     (distinct (sorted_arr st) \<and>
      (\<forall>k\<in>set (sorted_arr st). isVisited st k) \<and>
      (\<forall>k. isVisited st k \<longrightarrow>
         k \<in> set (sorted_arr st) \<or> k \<in> set anc \<or> k \<in> set objectPrototype) \<and>
      (\<forall>k\<in>set (sorted_arr st). \<exists>deps. map_of graph k = Some deps \<and>
         (\<forall>d\<in>set deps. d \<in> set (sorted_arr st) \<and>
            indexOf (sorted_arr st) d < indexOf (sorted_arr st) k)))"

definition extends :: "sort_state \<Rightarrow> sort_state \<Rightarrow> bool" where
  "extends st st' =
     ((\<exists>ys. sorted_arr st' = sorted_arr st @ ys) \<and> (\<forall>k. isVisited st k \<longrightarrow> isVisited st' k))"

text \<open>What the error of a cycle reports.\<close>

definition cycleReport :: "StateKeyGraph \<Rightarrow> js_error \<Rightarrow> bool" where
  "cycleReport graph e =
     (\<exists>dep k chain. e = Error (circularMessage dep k chain) \<and> chain \<noteq> [] \<and> last chain = k \<and>
        isChain graph chain \<and> isEdge graph k dep \<and> dep \<in> set chain)"

text \<open>What \<open>buildGraph\<close> throws for a child that is not in the list.\<close>

definition missingError :: "bool option \<Rightarrow> heap \<Rightarrow> stateClass \<Rightarrow> js_error" where
  "missingError ngDevMode h child =
     (if ngDevModeOn ngDevMode then Error (childNotFound (classText h child)) else TypeError)"

section \<open>Properties of the accessors\<close>

subsection \<open>The interpreted accessor never throws\<close>

lemma andProp_Inr: "\<exists>v. andProp proto acc part = Inr v"
  by (cases acc) (auto simp: andProp_def split: option.splits)

lemma getProp_truthy: "truthy v \<Longrightarrow> \<exists>w. getProp proto v part = Inr w"
  by (cases v) (auto split: option.splits)

lemma reduce_append:
  "reduce f (xs @ ys) acc = (case reduce f xs acc of Inl e \<Rightarrow> Inl e | Inr acc' \<Rightarrow> reduce f ys acc')"
  by (induction xs arbitrary: acc) (auto split: sum.splits)

lemma reduce_andProp_falsy: "\<not> truthy v \<Longrightarrow> reduce (andProp proto) parts v = Inr v"
  by (induction parts) (auto simp: andProp_def)

lemma reduce_andProp_Inr: "\<exists>v. reduce (andProp proto) parts acc = Inr v"
proof (induction parts arbitrary: acc)
  case Nil
  show ?case by simp
next
  case (Cons part parts)
  obtain w where "andProp proto acc part = Inr w"
    using andProp_Inr by blast
  with Cons show ?case by simp
qed

subsection \<open>The text the loop builds\<close>

lemma while_exprRest:
  "fastPropGetter_while segments i seg expr = exprRest seg expr (drop (Suc i) segments)"
proof (induction segments i seg expr rule: fastPropGetter_while.induct)
  case (1 segments i seg expr)
  show ?case
  proof (cases "Suc i < length segments")
    case True
    then have d: "drop (Suc i) segments = segments ! Suc i # drop (Suc (Suc i)) segments"
      by (simp add: Cons_nth_drop_Suc)
    from True "1.IH" [of "Suc i" "seg @ ''.'' @ segmentText segments (Suc i)"]
    show ?thesis
      by (subst fastPropGetter_while.simps) (simp add: d segmentText_def Let_def)
  next
    case False
    then show ?thesis
      by (subst fastPropGetter_while.simps) simp
  qed
qed

lemma exprRest_prefix: "\<exists>t. exprRest seg expr rest = expr @ t"
proof (induction rest arbitrary: seg expr)
  case Nil
  show ?case by simp
next
  case (Cons s rest)
  from Cons [of "seg @ ''.'' @ s" "expr @ '' && '' @ seg @ ''.'' @ s"]
  show ?case by auto
qed

subsection \<open>Lexing\<close>

lemma not_identPart_dot [simp]: "\<not> isIdentPart CHR ''.''"
  by (simp add: isIdentPart_def isIdentStart_def)

lemma not_identPart_space [simp]: "\<not> isIdentPart CHR '' ''"
  by (simp add: isIdentPart_def isIdentStart_def)

lemma not_identStart_dot [simp]: "\<not> isIdentStart CHR ''.''"
  by (simp add: isIdentStart_def)

lemma not_identStart_space [simp]: "\<not> isIdentStart CHR '' ''"
  by (simp add: isIdentStart_def)

lemma takeWhile_boundary:
  "ys = [] \<or> \<not> P (hd ys) \<Longrightarrow> takeWhile P ys = []"
  by (cases ys) auto

lemma dropWhile_boundary:
  "ys = [] \<or> \<not> P (hd ys) \<Longrightarrow> dropWhile P ys = ys"
  by (cases ys) auto

lemma tokenize_append:
  "tokenize xs = Some ts \<Longrightarrow> ys = [] \<or> \<not> isIdentPart (hd ys) \<Longrightarrow>
   tokenize (xs @ ys) = map_option (append ts) (tokenize ys)"
proof (induction xs arbitrary: ts rule: tokenize.induct)
  case 1
  then show ?case by (simp add: option.map_ident)
next
  case (2 c cs)
  show ?case
  proof (cases "c = CHR ''.''")
    case True
    with "2.prems" obtain ts' where ts': "tokenize cs = Some ts'" "ts = TDot # ts'"
      by auto
    from "2.IH"(1) [OF True ts'(1) "2.prems"(2)] True ts' show ?thesis
      by (simp add: option.map_comp comp_def)
  next
    case dot: False
    show ?thesis
    proof (cases "isIdentStart c")
      case True
      with dot "2.prems" obtain ts' where
        ts': "tokenize (dropWhile isIdentPart cs) = Some ts'"
             "ts = TIdent (c # takeWhile isIdentPart cs) # ts'"
        by auto
      show ?thesis
      proof (cases "\<forall>x\<in>set cs. isIdentPart x")
        case all: True
        then have "dropWhile isIdentPart cs = []" "takeWhile isIdentPart cs = cs"
          by auto
        with ts' have ts: "ts = [TIdent (c # cs)]"
          by simp
        from all "2.prems"(2) have
          "takeWhile isIdentPart (cs @ ys) = cs" "dropWhile isIdentPart (cs @ ys) = ys"
          by (simp_all add: takeWhile_append dropWhile_append takeWhile_boundary dropWhile_boundary)
        with dot True ts show ?thesis
          by (simp add: option.map_comp comp_def)
      next
        case False
        then have
          "takeWhile isIdentPart (cs @ ys) = takeWhile isIdentPart cs"
          "dropWhile isIdentPart (cs @ ys) = dropWhile isIdentPart cs @ ys"
          by (auto simp add: takeWhile_append dropWhile_append)
        with dot True ts' "2.IH"(2) [OF dot True ts'(1) "2.prems"(2)] show ?thesis
          by (simp add: option.map_comp comp_def)
      qed
    next
      case False
      with dot "2.prems" obtain ts' where
        ts': "take 4 (c # cs) = '' && ''" "tokenize (drop 3 cs) = Some ts'" "ts = TAnd # ts'"
        by (auto split: if_splits)
      from ts'(1) have len: "3 \<le> length cs"
        by (cases cs; cases "tl cs"; cases "tl (tl cs)") auto
      then have "take 4 (c # cs @ ys) = take 4 (c # cs)" "drop 3 (cs @ ys) = drop 3 cs @ ys"
        by auto
      with dot False ts' "2.IH"(3) [OF dot False ts'(1) ts'(2) "2.prems"(2)] show ?thesis
        by (simp add: option.map_comp comp_def)
    qed
  qed
qed

lemma tokenize_identifier:
  assumes "isIdentifierName s"
  shows "tokenize s = Some [TIdent s]"
proof -
  from assms obtain c cs where s: "s = c # cs" "isIdentStart c" "list_all isIdentPart cs"
    by (auto simp: isIdentifierName_def split: list.splits)
  then have "takeWhile isIdentPart cs = cs" "dropWhile isIdentPart cs = []"
    by (auto simp: list_all_iff)
  moreover from s have "c \<noteq> CHR ''.''"
    by auto
  ultimately show ?thesis
    unfolding s(1) using s(2) by (simp only: tokenize.simps if_False if_True option.map)
qed

lemma tokenize_and_sep: "tokenize ('' && '' @ ys) = map_option (Cons TAnd) (tokenize ys)"
  by simp

lemma tokenize_member:
  assumes "tokenize seg = Some ts" "isIdentifierName s"
  shows "tokenize (seg @ ''.'' @ s) = Some (ts @ [TDot, TIdent s])"
proof -
  have "tokenize (seg @ (''.'' @ s)) = map_option (append ts) (tokenize (''.'' @ s))"
    by (rule tokenize_append [OF assms(1)]) simp
  with tokenize_identifier [OF assms(2)] show ?thesis
    by simp
qed

lemma tokenize_conjunct:
  assumes "tokenize expr = Some ts" "tokenize seg = Some us"
  shows "tokenize (expr @ '' && '' @ seg) = Some (ts @ TAnd # us)"
proof -
  have "tokenize (expr @ ('' && '' @ seg)) = map_option (append ts) (tokenize ('' && '' @ seg))"
    by (rule tokenize_append [OF assms(1)]) simp
  with assms(2) show ?thesis
    by simp
qed

subsection \<open>Parsing\<close>

lemma parseMember_snoc:
  "parseMember e ts = (m, []) \<Longrightarrow> parseMember e (ts @ [TDot, TIdent s]) = (Member m s, [])"
  by (induction e ts rule: parseMember.induct) auto

lemma parseMember_before_and:
  "parseMember e (ts @ TAnd # us) =
     (fst (parseMember e ts), snd (parseMember e ts) @ TAnd # us)"
  by (induction e ts rule: parseMember.induct) auto

lemma parsePrimary_snoc:
  "parsePrimary ts = Some (m, []) \<Longrightarrow> parsePrimary (ts @ [TDot, TIdent s]) = Some (Member m s, [])"
  by (cases ts rule: parsePrimary.cases) (auto split: if_splits simp: parseMember_snoc)

lemma parsePrimary_before_and:
  "parsePrimary ts = Some (r, ts') \<Longrightarrow> parsePrimary (ts @ TAnd # us) = Some (r, ts' @ TAnd # us)"
  by (cases ts rule: parsePrimary.cases) (auto split: if_splits simp: parseMember_before_and)

lemma parseAnd_append:
  "parseAnd l ts = Some e \<Longrightarrow> parsePrimary us = Some (r, []) \<Longrightarrow>
   parseAnd l (ts @ TAnd # us) = Some (And e r)"
proof (induction l ts rule: parseAnd.induct)
  case (2 l ts)
  then obtain r' ts' where p: "parsePrimary ts = Some (r', ts')"
    by (auto split: option.splits)
  with 2 show ?case
    by (simp add: parsePrimary_before_and)
qed simp_all

lemma parseExpr_append:
  assumes "parseExpr ts = Some e" "parsePrimary us = Some (r, [])"
  shows "parseExpr (ts @ TAnd # us) = Some (And e r)"
proof -
  from assms(1) obtain m ts' where p: "parsePrimary ts = Some (m, ts')" "parseAnd m ts' = Some e"
    by (auto simp: parseExpr_def split: option.splits)
  then show ?thesis
    using parseAnd_append [OF p(2) assms(2)]
    by (simp add: parseExpr_def parsePrimary_before_and)
qed

lemma parseExpr_primary: "parsePrimary ts = Some (m, []) \<Longrightarrow> parseExpr ts = Some m"
  by (simp add: parseExpr_def)

subsection \<open>The expression the loop's text parses to\<close>

lemma exprRest_parses:
  assumes "\<forall>s\<in>set rest. isIdentifierName s"
    and "tokenize seg = Some segToks" "parsePrimary segToks = Some (chain, [])"
    and "tokenize expr = Some exprToks" "parseExpr exprToks = Some acc"
  shows "Option.bind (tokenize (exprRest seg expr rest)) parseExpr = Some (astRest chain acc rest)"
  using assms
proof (induction rest arbitrary: seg expr segToks exprToks chain acc)
  case Nil
  then show ?case by simp
next
  case (Cons s rest)
  let ?seg = "seg @ ''.'' @ s"
  from Cons.prems have s: "isIdentifierName s" and rest: "\<forall>s\<in>set rest. isIdentifierName s"
    by auto
  have 1: "tokenize ?seg = Some (segToks @ [TDot, TIdent s])"
    using Cons.prems(2) s by (rule tokenize_member)
  have 2: "parsePrimary (segToks @ [TDot, TIdent s]) = Some (Member chain s, [])"
    using Cons.prems(3) by (rule parsePrimary_snoc)
  have 3: "tokenize (expr @ '' && '' @ ?seg) = Some (exprToks @ TAnd # segToks @ [TDot, TIdent s])"
    using Cons.prems(4) 1 by (rule tokenize_conjunct)
  have 4: "parseExpr (exprToks @ TAnd # segToks @ [TDot, TIdent s]) = Some (And acc (Member chain s))"
    using Cons.prems(5) 2 by (rule parseExpr_append)
  from Cons.IH [OF rest 1 2 3 4] show ?case
    by simp
qed

lemma tokenize_store_member:
  assumes "isIdentifierName s"
  shows "tokenize (''store.'' @ s) = Some [TIdent ''store'', TDot, TIdent s]"
proof -
  have "tokenize ''store'' = Some [TIdent ''store'']"
    by (rule tokenize_identifier) (simp add: isIdentifierName_def isIdentStart_def isIdentPart_def)
  from tokenize_member [OF this assms] show ?thesis
    by simp
qed

subsection \<open>Evaluating it\<close>

lemma evalExpr_astRest:
  assumes "evalExpr proto acc root = Inr v"
    and "truthy v \<longrightarrow> evalExpr proto chain root = Inr v"
  shows "evalExpr proto (astRest chain acc rest) root = reduce (andProp proto) rest v"
  using assms
proof (induction rest arbitrary: chain acc v)
  case Nil
  then show ?case by simp
next
  case (Cons s rest)
  obtain w where w: "andProp proto v s = Inr w"
    using andProp_Inr by blast
  have acc': "evalExpr proto (And acc (Member chain s)) root = Inr w"
    using Cons.prems w by (auto simp: andProp_def)
  have chain': "truthy w \<longrightarrow> evalExpr proto (Member chain s) root = Inr w"
    using Cons.prems w by (auto simp: andProp_def split: if_splits)
  from Cons.IH [OF acc' chain'] w show ?case
    by simp
qed

lemma newFunction_return:
  "newFunction proto (''return '' @ expr @ '';'') =
     map_option (evalExpr proto) (Option.bind (tokenize expr) parseExpr)"
proof -
  have "butlast (drop 7 (''return '' @ expr @ '';'')) = expr"
    by (simp add: butlast_append)
  moreover have "take 7 (''return '' @ expr @ '';'') = ''return ''"
    by simp
  moreover have "last (''return '' @ expr @ '';'') = CHR '';''"
    by simp
  moreover have "7 < length (''return '' @ expr @ '';'')"
    by simp
  ultimately show ?thesis
    unfolding newFunction_def by (simp only: if_True simp_thms)
qed

lemma fastPropGetter_expr:
  "fastPropGetter proto paths =
     map_option (evalExpr proto)
       (Option.bind (tokenize (exprRest (''store.'' @ segmentText paths 0) (''store.'' @ segmentText paths 0) (drop 1 paths))) parseExpr)"
  unfolding fastPropGetter_def Let_def newFunction_return while_exprRest by simp

lemma fastPropGetter_identifiers:
  assumes "\<forall>s\<in>set (p # rest). isIdentifierName s"
  shows "fastPropGetter proto (p # rest) =
           Some (evalExpr proto (astRest (Member Store p) (Member Store p) rest))"
proof -
  from assms have p: "isIdentifierName p" and rest: "\<forall>s\<in>set rest. isIdentifierName s"
    by auto
  have l: "tokenize (''store.'' @ p) = Some [TIdent ''store'', TDot, TIdent p]"
    using p by (rule tokenize_store_member)
  have pp: "parsePrimary [TIdent ''store'', TDot, TIdent p] = Some (Member Store p, [])"
    by simp
  from exprRest_parses [OF rest l pp l parseExpr_primary [OF pp]] show ?thesis
    by (simp add: fastPropGetter_expr segmentText_def del: tokenize.simps)
qed

lemma accessors_agree_aux:
  assumes "\<forall>s\<in>set (p # rest). isIdentifierName s" "truthy root"
  shows "\<exists>fn. fastPropGetter proto (p # rest) = Some fn \<and>
              fn root = compliantPropGetter proto (p # rest) root"
proof -
  obtain v where v: "getProp proto root p = Inr v"
    using getProp_truthy [OF assms(2)] by blast
  have "evalExpr proto (astRest (Member Store p) (Member Store p) rest) root =
          reduce (andProp proto) rest v"
    by (rule evalExpr_astRest) (simp_all add: v)
  moreover have "compliantPropGetter proto (p # rest) root = reduce (andProp proto) rest v"
    using v assms(2) by (simp add: compliantPropGetter_def andProp_def)
  ultimately show ?thesis
    using fastPropGetter_identifiers [OF assms(1)] by simp
qed



subsection \<open>The compiled accessor on the root \<open>null\<close>\<close>

lemma evalExpr_parseMember_error:
  "evalExpr proto e s = Inl err \<Longrightarrow> evalExpr proto (fst (parseMember e ts)) s = Inl err"
  by (induction e ts rule: parseMember.induct) auto

lemma evalExpr_parseAnd_error:
  "parseAnd l ts = Some e \<Longrightarrow> evalExpr proto l s = Inl err \<Longrightarrow> evalExpr proto e s = Inl err"
  by (induction l ts rule: parseAnd.induct) (auto split: option.splits)

lemma tokenize_store_dot:
  "tokenize (''store.'' @ t) = map_option (\<lambda>ts. TIdent ''store'' # TDot # ts) (tokenize t)"
  by (simp add: isIdentStart_def isIdentPart_def option.map_comp comp_def)

lemma parseExpr_store_dot:
  assumes "parseExpr (TIdent ''store'' # TDot # ts) = Some e"
  shows "evalExpr proto e Null = Inl TypeError"
proof (cases ts)
  case Nil
  with assms show ?thesis by (simp add: parseExpr_def)
next
  case (Cons t ts')
  show ?thesis
  proof (cases t)
    case (TIdent x)
    obtain m r where mr: "parseMember (Member Store x) ts' = (m, r)"
      by (cases "parseMember (Member Store x) ts'") auto
    have "evalExpr proto (fst (parseMember (Member Store x) ts')) Null = Inl TypeError"
      by (rule evalExpr_parseMember_error) simp
    with mr have m: "evalExpr proto m Null = Inl TypeError"
      by simp
    from assms Cons TIdent mr have "parseAnd m r = Some e"
      by (simp add: parseExpr_def)
    from evalExpr_parseAnd_error [OF this m] show ?thesis .
  next
    case TDot
    with assms Cons show ?thesis by (simp add: parseExpr_def)
  next
    case TAnd
    with assms Cons show ?thesis by (simp add: parseExpr_def)
  qed
qed

lemma fastPropGetter_Null:
  assumes "fastPropGetter proto paths = Some fn"
  shows "fn Null = Inl TypeError"
proof -
  let ?seg = "''store.'' @ segmentText paths 0"
  obtain t where t: "exprRest ?seg ?seg (drop 1 paths) = ?seg @ t"
    using exprRest_prefix by blast
  from assms obtain e where
    e: "Option.bind (tokenize (''store.'' @ (segmentText paths 0 @ t))) parseExpr = Some e"
    and fn: "fn = evalExpr proto e"
    unfolding fastPropGetter_expr t by auto
  from e obtain ts where "parseExpr (TIdent ''store'' # TDot # ts) = Some e"
    unfolding tokenize_store_dot by (auto simp: bind_eq_Some_conv)
  from parseExpr_store_dot [OF this] fn show ?thesis
    by simp
qed

lemma compliantPropGetter_falsy:
  "\<not> truthy root \<Longrightarrow> compliantPropGetter proto paths root = Inr root"
  by (simp add: compliantPropGetter_def reduce_andProp_falsy)

lemma fast_is_not_compliant: "fastPropGetter proto paths \<noteq> Some (compliantPropGetter proto paths)"
proof
  assume "fastPropGetter proto paths = Some (compliantPropGetter proto paths)"
  from fastPropGetter_Null [OF this] show False
    by (simp add: compliantPropGetter_falsy)
qed


section \<open>The claims about the accessors\<close>

text \<open>
  Claim C1, as amended. For every non-empty sequence of identifier-name segments and every
  truthy root, the compiled strategy yields an accessor, and it returns on the root what
  the interpreted accessor returns. Where walking a prefix of the path reaches a falsy
  value, both return that falsy value itself: it is \<^verbatim>\<open>undefined\<close> only when the
  value reached is \<^verbatim>\<open>undefined\<close> (an absent segment, for instance), and it is
  \<^verbatim>\<open>0\<close>, \<^verbatim>\<open>""\<close>, \<^verbatim>\<open>false\<close>, \<^verbatim>\<open>null\<close> or \<^verbatim>\<open>NaN\<close> when the segment
  holds that.
\<close>

theorem accessors_agree:
  assumes "paths \<noteq> []" and "list_all isIdentifierName paths" and "truthy root"
  shows "\<exists>fn. fastPropGetter proto paths = Some fn \<and>
           fn root = compliantPropGetter proto paths root \<and>
           (\<forall>k v. compliantPropGetter proto (take k paths) root = Inr v \<and> \<not> truthy v \<longrightarrow>
                  fn root = Inr v)"
proof -
  from assms(1) obtain p rest where paths: "paths = p # rest"
    by (cases paths) auto
  from assms(2) have "\<forall>s\<in>set (p # rest). isIdentifierName s"
    unfolding paths by (simp add: list_all_iff)
  from accessors_agree_aux [OF this assms(3)] obtain fn where
    fn: "fastPropGetter proto paths = Some fn" "fn root = compliantPropGetter proto paths root"
    unfolding paths by blast
  have "compliantPropGetter proto paths root = Inr v"
    if "compliantPropGetter proto (take k paths) root = Inr v" "\<not> truthy v" for k v
  proof -
    have "reduce (andProp proto) (take k paths @ drop k paths) root = Inr v"
      unfolding reduce_append using that
      by (simp add: compliantPropGetter_def reduce_andProp_falsy)
    then show ?thesis
      by (simp add: compliantPropGetter_def)
  qed
  with fn show ?thesis
    by auto
qed

text \<open>
  Claim C1, the amended statement at the path \<^verbatim>\<open>["a","b"]\<close> and the root
  \<^verbatim>\<open>{a: 0}\<close>: both strategies return \<^verbatim>\<open>0\<close>.
\<close>

theorem accessors_agree_witness:
  "[''a'', ''b''] \<noteq> [] \<and> list_all isIdentifierName [''a'', ''b''] \<and>
   truthy (Obj [(''a'', Num 0)]) \<and>
   invoke (fastPropGetter noInherited [''a'', ''b'']) (Obj [(''a'', Num 0)]) =
     Some (compliantPropGetter noInherited [''a'', ''b''] (Obj [(''a'', Num 0)])) \<and>
   invoke (fastPropGetter noInherited [''a'', ''b'']) (Obj [(''a'', Num 0)]) = Some (Inr (Num 0))"
proof -
  have h1: "[''a'', ''b''] \<noteq> []"
    by simp
  have h2: "list_all isIdentifierName [''a'', ''b'']"
    by (simp add: isIdentifierName_def isIdentStart_def)
  have h3: "truthy (Obj [(''a'', Num 0)])"
    by simp
  have c: "compliantPropGetter noInherited (take 1 [''a'', ''b'']) (Obj [(''a'', Num 0)]) = Inr (Num 0)"
    by (simp add: compliantPropGetter_def andProp_def)
  from accessors_agree [OF h1 h2 h3, of noInherited] obtain fn where
    fn: "fastPropGetter noInherited [''a'', ''b''] = Some fn"
      "fn (Obj [(''a'', Num 0)]) =
         compliantPropGetter noInherited [''a'', ''b''] (Obj [(''a'', Num 0)])"
      "\<forall>k v. compliantPropGetter noInherited (take k [''a'', ''b'']) (Obj [(''a'', Num 0)]) = Inr v \<and>
             \<not> truthy v \<longrightarrow> fn (Obj [(''a'', Num 0)]) = Inr v"
    by blast
  from fn(3) [rule_format, of 1 "Num 0"] c have "fn (Obj [(''a'', Num 0)]) = Inr (Num 0)"
    by simp
  with fn(1,2) h1 h2 h3 show ?thesis
    by (simp add: invoke_def)
qed

lemma compiled_falsy_intermediate:
  "invoke (fastPropGetter noInherited [''a'', ''b'']) (Obj [(''a'', Num 0)]) = Some (Inr (Num 0))"
  by (simp add: invoke_def fastPropGetter_def segmentText_def newFunction_def isIdentStart_def
      isIdentPart_def parseExpr_def)

lemma compiled_empty_path:
  "invoke (fastPropGetter noInherited []) (Obj [(''a'', Num 1)]) = Some (Inr Undefined)"
  by (simp add: invoke_def fastPropGetter_def segmentText_def newFunction_def isIdentStart_def
      isIdentPart_def parseExpr_def noInherited_def)

lemma compiled_null_root:
  "invoke (fastPropGetter noInherited [''a'']) Null = Some (Inl TypeError)"
  by (simp add: invoke_def fastPropGetter_def segmentText_def newFunction_def isIdentStart_def
      isIdentPart_def parseExpr_def)

lemma compiled_dotted_segment:
  "invoke (fastPropGetter noInherited [''a.b'']) (Obj [(''a.b'', Num 1)]) = Some (Inl TypeError)"
  by (simp add: invoke_def fastPropGetter_def segmentText_def newFunction_def isIdentStart_def
      isIdentPart_def parseExpr_def noInherited_def)

lemma interpreted_examples:
  "compliantPropGetter noInherited [''a'', ''b''] (Obj [(''a'', Num 0)]) = Inr (Num 0)"
  "compliantPropGetter noInherited [] (Obj [(''a'', Num 1)]) = Inr (Obj [(''a'', Num 1)])"
  "compliantPropGetter noInherited [''a''] Null = Inr Null"
  "compliantPropGetter noInherited [''a.b''] (Obj [(''a.b'', Num 1)]) = Inr (Num 1)"
  by (simp_all add: compliantPropGetter_def andProp_def)

text \<open>
  Claim C1 as stated fails. On the path \<^verbatim>\<open>["a","b"]\<close> and the root \<^verbatim>\<open>{a: 0}\<close>
  both strategies return \<^verbatim>\<open>0\<close>, not \<^verbatim>\<open>undefined\<close>. And the strategies differ
  outside the amended statement: on the empty path the interpreted accessor returns the
  root and the compiled one reads \<^verbatim>\<open>store.undefined\<close>; on the root \<^verbatim>\<open>null\<close> the
  interpreted one returns \<^verbatim>\<open>null\<close> and the compiled one throws; a segment that is
  no identifier name, such as \<^verbatim>\<open>a.b\<close>, is one property for the interpreted accessor
  and two member accesses in the compiled text.
\<close>

theorem accessors_counterexample:
  "compliantPropGetter noInherited [''a'', ''b''] (Obj [(''a'', Num 0)]) = Inr (Num 0) \<and>
   invoke (fastPropGetter noInherited [''a'', ''b'']) (Obj [(''a'', Num 0)]) = Some (Inr (Num 0)) \<and>
   compliantPropGetter noInherited [] (Obj [(''a'', Num 1)]) = Inr (Obj [(''a'', Num 1)]) \<and>
   invoke (fastPropGetter noInherited []) (Obj [(''a'', Num 1)]) = Some (Inr Undefined) \<and>
   compliantPropGetter noInherited [''a''] Null = Inr Null \<and>
   invoke (fastPropGetter noInherited [''a'']) Null = Some (Inl TypeError) \<and>
   compliantPropGetter noInherited [''a.b''] (Obj [(''a.b'', Num 1)]) = Inr (Num 1) \<and>
   invoke (fastPropGetter noInherited [''a.b'']) (Obj [(''a.b'', Num 1)]) = Some (Inl TypeError)"
  by (simp only: compiled_falsy_intermediate compiled_empty_path compiled_null_root
      compiled_dotted_segment interpreted_examples simp_thms)

text \<open>
  Claim C5, as amended. The interpreted accessor returns the root for the empty path;
  on a truthy value it reads the next segment and goes on from what it read; on a falsy
  value it stops and returns that value itself, however many segments are left. So a
  path through an absent segment gives \<^verbatim>\<open>undefined\<close>, and a path through a segment
  holding \<^verbatim>\<open>0\<close>, \<^verbatim>\<open>""\<close>, \<^verbatim>\<open>false\<close>, \<^verbatim>\<open>null\<close> or \<^verbatim>\<open>NaN\<close> gives
  that value.
\<close>

theorem compliantPropGetter_walk:
  "compliantPropGetter proto [] obj = Inr obj \<and>
   (truthy obj \<longrightarrow>
      compliantPropGetter proto (part # parts) obj =
        (case getProp proto obj part of
           Inl e \<Rightarrow> Inl e
         | Inr v \<Rightarrow> compliantPropGetter proto parts v)) \<and>
   (\<not> truthy obj \<longrightarrow> compliantPropGetter proto parts obj = Inr obj) \<and>
   (compliantPropGetter proto parts obj = Inr v \<and> \<not> truthy v \<longrightarrow>
      compliantPropGetter proto (parts @ rest) obj = Inr v) \<and>
   (map_of props part = None \<and> proto (Obj props) part = Undefined \<longrightarrow>
      compliantPropGetter proto (part # parts) (Obj props) = Inr Undefined)"
proof -
  have "compliantPropGetter proto (parts @ rest) obj = Inr v"
    if "compliantPropGetter proto parts obj = Inr v" "\<not> truthy v"
    using that by (simp add: compliantPropGetter_def reduce_append reduce_andProp_falsy)
  then show ?thesis
    by (auto simp: compliantPropGetter_def andProp_def reduce_andProp_falsy split: sum.splits)
qed

text \<open>
  Claim C5, the amended statement on the root \<^verbatim>\<open>{a: ""}\<close>: the path through
  \<^verbatim>\<open>a\<close> returns the empty string, the path through the absent \<^verbatim>\<open>z\<close> returns
  \<^verbatim>\<open>undefined\<close>, and the root \<^verbatim>\<open>null\<close> is returned as it is.
\<close>

theorem compliantPropGetter_walk_witness:
  "truthy (Obj [(''a'', Str [])]) \<and>
   compliantPropGetter noInherited [''a''] (Obj [(''a'', Str [])]) = Inr (Str []) \<and>
   \<not> truthy (Str []) \<and>
   compliantPropGetter noInherited ([''a''] @ [''b'', ''c'']) (Obj [(''a'', Str [])]) = Inr (Str []) \<and>
   map_of [(''a'', Str [])] ''z'' = None \<and>
   noInherited (Obj [(''a'', Str [])]) ''z'' = Undefined \<and>
   compliantPropGetter noInherited [''z'', ''b''] (Obj [(''a'', Str [])]) = Inr Undefined \<and>
   \<not> truthy Null \<and>
   compliantPropGetter noInherited [''a'', ''b''] Null = Inr Null"
proof -
  let ?root = "Obj [(''a'', Str [])]"
  note w = compliantPropGetter_walk [of noInherited ?root "''a''" "[]" "Str []" "[''b'', ''c'']"
      "[(''a'', Str [])]"]
  note z = compliantPropGetter_walk [of noInherited ?root "''z''" "[''b'']" "Str []" "[]"
      "[(''a'', Str [])]"]
  note n = compliantPropGetter_walk [of noInherited Null "''a''" "[''a'', ''b'']" Null "[]" "[]"]
  have h1: "truthy ?root"
    by simp
  have h2: "\<not> truthy (Str [])" "\<not> truthy Null"
    by simp_all
  have h3: "map_of [(''a'', Str [])] ''z'' = None" "noInherited ?root ''z'' = Undefined"
    by (simp_all add: noInherited_def)
  have a: "compliantPropGetter noInherited [''a''] ?root = Inr (Str [])"
    using w [THEN conjunct2, THEN conjunct1] h1
      compliantPropGetter_walk [of noInherited "Str []" "[]" "[]" Null "[]" "[]", THEN conjunct1]
    by simp
  have b: "compliantPropGetter noInherited ([''a''] @ [''b'', ''c'']) ?root = Inr (Str [])"
    using compliantPropGetter_walk [of noInherited ?root "''a''" "[''a'']" "Str []" "[''b'', ''c'']"
        "[]", THEN conjunct2, THEN conjunct2, THEN conjunct2, THEN conjunct1] a h2
    by blast
  have c: "compliantPropGetter noInherited [''z'', ''b''] ?root = Inr Undefined"
    using z [THEN conjunct2, THEN conjunct2, THEN conjunct2, THEN conjunct2] h3 by blast
  have d: "compliantPropGetter noInherited [''a'', ''b''] Null = Inr Null"
    using n [THEN conjunct2, THEN conjunct2, THEN conjunct1] h2 by blast
  from h1 h2 h3 a b c d show ?thesis
    by (simp only: simp_thms)
qed

text \<open>
  Claim C5 as stated fails: at a falsy intermediate segment the interpreted accessor
  returns the value of that segment, here \<^verbatim>\<open>false\<close> and \<^verbatim>\<open>null\<close>, not
  \<^verbatim>\<open>undefined\<close>.
\<close>

theorem compliantPropGetter_falsy_counterexample:
  "compliantPropGetter noInherited [''a'', ''b''] (Obj [(''a'', Bool False)]) = Inr (Bool False) \<and>
   compliantPropGetter noInherited [''a'', ''b''] (Obj [(''a'', Null)]) = Inr Null"
  by (simp add: compliantPropGetter_def andProp_def)

text \<open>
  Claim C10. For every segment sequence and every root value the closure of the
  interpreted accessor returns a value and does not throw; a falsy root, such as
  \<^verbatim>\<open>null\<close>, \<^verbatim>\<open>undefined\<close> or \<^verbatim>\<open>0\<close>, is returned unchanged; and for the
  empty segment sequence the root is returned unchanged.
\<close>

theorem compliantPropGetter_total:
  "(\<exists>v. compliantPropGetter proto paths root = Inr v) \<and>
   (\<not> truthy root \<longrightarrow> compliantPropGetter proto paths root = Inr root) \<and>
   compliantPropGetter proto [] root = Inr root"
  using reduce_andProp_Inr [of proto paths root]
  by (simp add: compliantPropGetter_def reduce_andProp_falsy)

text \<open>
  Claim C10 at the roots \<^verbatim>\<open>undefined\<close>, \<^verbatim>\<open>null\<close> and \<^verbatim>\<open>0\<close>, and at the
  empty path.
\<close>

theorem compliantPropGetter_total_witness:
  "\<not> truthy Undefined \<and>
   compliantPropGetter noInherited [''a'', ''b''] Undefined = Inr Undefined \<and>
   compliantPropGetter noInherited [''a'', ''b''] Null = Inr Null \<and>
   compliantPropGetter noInherited [''a'', ''b''] (Num 0) = Inr (Num 0) \<and>
   compliantPropGetter noInherited [] (Str ''x'') = Inr (Str ''x'')"
  using compliantPropGetter_total [of noInherited "[''a'', ''b'']" Undefined]
    compliantPropGetter_total [of noInherited "[''a'', ''b'']" Null]
    compliantPropGetter_total [of noInherited "[''a'', ''b'']" "Num 0"]
    compliantPropGetter_total [of noInherited "[]" "Str ''x''"]
  by simp

text \<open>
  Claim C8. \<open>propGetter\<close> returns the interpreted accessor exactly when the
  configuration is present, has a \<^verbatim>\<open>compatibility\<close> object, and the flag
  \<^verbatim>\<open>strictContentSecurityPolicy\<close> of that object is true; otherwise it returns what
  the compiled strategy returns. The condition reads the configuration only. (The two
  accessors are never the same function: on the root \<^verbatim>\<open>null\<close> the compiled one
  throws and the interpreted one returns \<^verbatim>\<open>null\<close>.)
\<close>

theorem propGetter_strategy:
  "(propGetter proto paths config = Some (compliantPropGetter proto paths)) =
     (\<exists>c k. config = Some c \<and> compatibility c = Some k \<and> strictContentSecurityPolicy k) \<and>
   (\<not> (\<exists>c k. config = Some c \<and> compatibility c = Some k \<and> strictContentSecurityPolicy k) \<longrightarrow>
      propGetter proto paths config = fastPropGetter proto paths)"
  using fast_is_not_compliant [of proto paths]
  by (auto simp: propGetter_def split: option.splits)

text \<open>
  Claim C8 at the four shapes of configuration: flag true, flag false, no
  \<^verbatim>\<open>compatibility\<close>, no configuration.
\<close>

theorem propGetter_strategy_witness:
  "propGetter noInherited [''a'']
     (Some \<lparr>compatibility = Some \<lparr>strictContentSecurityPolicy = True\<rparr>\<rparr>) =
     Some (compliantPropGetter noInherited [''a'']) \<and>
   propGetter noInherited [''a'']
     (Some \<lparr>compatibility = Some \<lparr>strictContentSecurityPolicy = False\<rparr>\<rparr>) =
     fastPropGetter noInherited [''a''] \<and>
   propGetter noInherited [''a''] (Some \<lparr>compatibility = None\<rparr>) = fastPropGetter noInherited [''a''] \<and>
   propGetter noInherited [''a''] None = fastPropGetter noInherited [''a'']"
  using propGetter_strategy [of noInherited "[''a'']"
      "Some \<lparr>compatibility = Some \<lparr>strictContentSecurityPolicy = True\<rparr>\<rparr>"]
    propGetter_strategy [of noInherited "[''a'']"
      "Some \<lparr>compatibility = Some \<lparr>strictContentSecurityPolicy = False\<rparr>\<rparr>"]
    propGetter_strategy [of noInherited "[''a'']" "Some \<lparr>compatibility = None\<rparr>"]
    propGetter_strategy [of noInherited "[''a'']" None]
  by simp

section \<open>Properties of the topological sort\<close>

subsection \<open>indexOf\<close>

lemma indexOf_ge_minus1: "- 1 \<le> indexOf xs x"
  by (induction xs) (auto simp: Let_def)

lemma indexOf_nonneg_iff: "(0 \<le> indexOf xs x) = (x \<in> set xs)"
  by (induction xs) (auto simp: Let_def)

lemma indexOf_neg_iff: "(indexOf xs x < 0) = (x \<notin> set xs)"
  using indexOf_nonneg_iff [of xs x] by auto

lemma indexOf_less_length: "x \<in> set xs \<Longrightarrow> indexOf xs x < int (length xs)"
  by (induction xs) (auto simp: Let_def indexOf_neg_iff)

lemma indexOf_append_in: "x \<in> set xs \<Longrightarrow> indexOf (xs @ ys) x = indexOf xs x"
  by (induction xs) (auto simp: Let_def indexOf_neg_iff)

lemma indexOf_snoc_new: "x \<notin> set xs \<Longrightarrow> indexOf (xs @ [x]) x = int (length xs)"
  by (induction xs) (auto simp: Let_def indexOf_neg_iff)

lemma indexOf_rev:
  "distinct xs \<Longrightarrow> x \<in> set xs \<Longrightarrow> indexOf (rev xs) x = int (length xs) - 1 - indexOf xs x"
proof (induction xs)
  case Nil
  then show ?case by simp
next
  case (Cons y ys)
  show ?case
  proof (cases "x = y")
    case True
    with Cons.prems have "x \<notin> set (rev ys)" by simp
    from indexOf_snoc_new [OF this] True show ?thesis by simp
  next
    case False
    with Cons.prems have x: "x \<in> set ys" and d: "distinct ys" by auto
    then have "indexOf (rev ys @ [y]) x = indexOf (rev ys) x"
      by (simp add: indexOf_append_in)
    with Cons.IH [OF d x] False x show ?thesis
      by (simp add: Let_def indexOf_neg_iff)
  qed
qed

subsection \<open>The visit, unfolded\<close>

lemma visit_Inr:
  "(topologicalSort_visit m graph n anc st = Inr st') =
     (\<exists>deps st2. map_of graph n = Some deps \<and>
        topologicalSort_forEach m graph n (anc @ [n]) deps
          (st\<lparr>visited_obj := setProp n True (visited_obj st)\<rparr>) = Inr st2 \<and>
        st' = (if n \<in> set (sorted_arr st2) then st2
               else st2\<lparr>sorted_arr := sorted_arr st2 @ [n]\<rparr>))"
  by (auto simp: Let_def indexOf_neg_iff split: option.splits sum.splits)

lemma visit_Inl:
  "(topologicalSort_visit m graph n anc st = Inl e) =
     (case map_of graph n of
        None \<Rightarrow> e = TypeError
      | Some deps \<Rightarrow>
          topologicalSort_forEach m graph n (anc @ [n]) deps
            (st\<lparr>visited_obj := setProp n True (visited_obj st)\<rparr>) = Inl e)"
  by (auto simp: Let_def split: option.splits sum.splits)

lemma forEach_Cons_Inr:
  "(topologicalSort_forEach m graph n anc (dep # deps) st = Inr st') =
     (\<not> (ngDevModeOn m \<and> dep \<in> set anc) \<and>
      (if isVisited st dep then topologicalSort_forEach m graph n anc deps st = Inr st'
       else \<exists>st1. topologicalSort_visit m graph dep anc st = Inr st1 \<and>
                  topologicalSort_forEach m graph n anc deps st1 = Inr st'))"
  by (auto simp: indexOf_nonneg_iff split: sum.splits simp del: topologicalSort_visit.simps)

lemma forEach_Cons_Inl:
  "(topologicalSort_forEach m graph n anc (dep # deps) st = Inl e) =
     (if ngDevModeOn m \<and> dep \<in> set anc then e = Error (circularMessage dep n anc)
      else if isVisited st dep then topologicalSort_forEach m graph n anc deps st = Inl e
      else topologicalSort_visit m graph dep anc st = Inl e \<or>
           (\<exists>st1. topologicalSort_visit m graph dep anc st = Inr st1 \<and>
                  topologicalSort_forEach m graph n anc deps st1 = Inl e))"
  by (auto simp: indexOf_nonneg_iff split: sum.splits simp del: topologicalSort_visit.simps)


subsection \<open>The invariant of the depth-first search\<close>

lemma isVisited_sorted_arr [simp]: "isVisited (st\<lparr>sorted_arr := xs\<rparr>) k = isVisited st k"
  by (simp add: isVisited_def)

lemma plainChildren_deps:
  assumes "plainChildren graph" "map_of graph n = Some deps"
  shows "\<forall>d\<in>set deps. d \<notin> set objectPrototype"
proof -
  from assms(2) have "(n, deps) \<in> set graph"
    by (rule map_of_SomeD)
  with assms(1) show ?thesis
    by (auto simp: plainChildren_def list_all_iff)
qed

lemma extends_refl: "extends st st"
  by (simp add: extends_def)

lemma extends_trans: "extends a b \<Longrightarrow> extends b c \<Longrightarrow> extends a c"
  by (auto simp: extends_def)

lemma sort_inv_mark:
  assumes "sort_inv graph st anc"
  shows "sort_inv graph (st\<lparr>visited_obj := setProp n True (visited_obj st)\<rparr>) (anc @ [n])"
  using assms unfolding sort_inv_def by (auto simp: isVisited_mark)

lemma extends_mark: "extends st (st\<lparr>visited_obj := setProp n True (visited_obj st)\<rparr>)"
  by (simp add: extends_def isVisited_mark)

lemma sort_inv_push:
  assumes inv: "sort_inv graph st2 (anc @ [n])"
    and deps: "map_of graph n = Some deps" "set deps \<subseteq> set (sorted_arr st2)"
    and vis: "isVisited st2 n"
    and new: "n \<notin> set (sorted_arr st2)"
  shows "sort_inv graph (st2\<lparr>sorted_arr := sorted_arr st2 @ [n]\<rparr>) anc"
proof -
  let ?xs = "sorted_arr st2"
  have old: "indexOf (?xs @ [n]) d = indexOf ?xs d" if "d \<in> set ?xs" for d
    using that by (rule indexOf_append_in)
  have top: "indexOf (?xs @ [n]) n = int (length ?xs)"
    using new by (rule indexOf_snoc_new)
  have "\<exists>ds. map_of graph k = Some ds \<and>
          (\<forall>d\<in>set ds. d \<in> set (?xs @ [n]) \<and> indexOf (?xs @ [n]) d < indexOf (?xs @ [n]) k)"
    if k: "k \<in> set (?xs @ [n])" for k
  proof (cases "k = n")
    case True
    have "indexOf (?xs @ [n]) d < indexOf (?xs @ [n]) n" if "d \<in> set deps" for d
      using that deps(2) old [of d] top indexOf_less_length [of d ?xs] by auto
    with True deps show ?thesis by auto
  next
    case False
    with k have k': "k \<in> set ?xs" by simp
    with inv obtain ds where ds: "map_of graph k = Some ds"
      "\<forall>d\<in>set ds. d \<in> set ?xs \<and> indexOf ?xs d < indexOf ?xs k"
      unfolding sort_inv_def by blast
    then show ?thesis
      using old k' by auto
  qed
  moreover have "\<forall>k. isVisited st2 k \<longrightarrow>
      k \<in> set ?xs \<or> k \<in> set anc \<or> k = n \<or> k \<in> set objectPrototype"
    using inv unfolding sort_inv_def by auto
  moreover have "distinct (?xs @ [n])" "\<forall>k\<in>set (?xs @ [n]). isVisited st2 k"
    using inv new vis unfolding sort_inv_def by auto
  ultimately show ?thesis
    unfolding sort_inv_def by auto
qed

lemma sort_inv_drop_last:
  assumes "sort_inv graph st2 (anc @ [n])" "n \<in> set (sorted_arr st2)"
  shows "sort_inv graph st2 anc"
  using assms unfolding sort_inv_def by auto

declare topologicalSort_visit.simps [simp del]
declare topologicalSort_forEach.simps(2) [simp del]

lemma sort_steps:
  "ngDevModeOn m \<Longrightarrow> plainChildren graph \<Longrightarrow> sort_inv graph st anc \<Longrightarrow>
   topologicalSort_visit m graph n anc st = Inr st' \<Longrightarrow>
   sort_inv graph st' anc \<and> n \<in> set (sorted_arr st') \<and> extends st st'"
  "ngDevModeOn m \<Longrightarrow> plainChildren graph \<Longrightarrow> sort_inv graph st anc \<Longrightarrow>
   \<forall>d\<in>set deps. d \<notin> set objectPrototype \<Longrightarrow>
   topologicalSort_forEach m graph n anc deps st = Inr st' \<Longrightarrow>
   sort_inv graph st' anc \<and> set deps \<subseteq> set (sorted_arr st') \<and> extends st st'"
proof (induct m graph n anc st and m graph n anc deps st arbitrary: st' and st'
    rule: topologicalSort_visit_topologicalSort_forEach.induct)
  case (1 m graph n anc st)
  let ?st = "st\<lparr>visited_obj := setProp n True (visited_obj st)\<rparr>"
  from "1.prems"(4) obtain deps st2 where
    deps: "map_of graph n = Some deps" and
    st2: "topologicalSort_forEach m graph n (anc @ [n]) deps ?st = Inr st2" and
    st': "st' = (if n \<in> set (sorted_arr st2) then st2 else st2\<lparr>sorted_arr := sorted_arr st2 @ [n]\<rparr>)"
    unfolding visit_Inr by blast
  note pd = plainChildren_deps [OF "1.prems"(2) deps]
  from "1.hyps" [OF refl refl deps "1.prems"(1,2) sort_inv_mark [OF "1.prems"(3)] pd st2]
  have inv2: "sort_inv graph st2 (anc @ [n])"
    and sub: "set deps \<subseteq> set (sorted_arr st2)"
    and ext: "extends ?st st2"
    by simp_all
  from ext have vis: "isVisited st2 n"
    by (simp add: extends_def isVisited_mark)
  have e: "extends st st2"
    using extends_trans [OF extends_mark ext] .
  show ?case
  proof (cases "n \<in> set (sorted_arr st2)")
    case True
    with st' inv2 e show ?thesis
      by (simp add: sort_inv_drop_last)
  next
    case False
    from sort_inv_push [OF inv2 deps sub vis False] st' False e show ?thesis
      by (auto simp: extends_def)
  qed
next
  case (2 m graph n anc st)
  then show ?case
    by (simp add: extends_refl)
next
  case (3 m graph n anc dep deps st)
  from "3.prems"(5) have ok: "\<not> (ngDevModeOn m \<and> 0 \<le> indexOf anc dep)"
    unfolding forEach_Cons_Inr by (simp add: indexOf_nonneg_iff)
  with "3.prems"(1) have notanc: "dep \<notin> set anc"
    by (simp add: indexOf_nonneg_iff)
  from "3.prems"(4) have plain: "dep \<notin> set objectPrototype"
    and rest: "\<forall>d\<in>set deps. d \<notin> set objectPrototype"
    by simp_all
  show ?case
  proof (cases "isVisited st dep")
    case True
    from "3.prems"(5) True have r: "topologicalSort_forEach m graph n anc deps st = Inr st'"
      unfolding forEach_Cons_Inr by simp
    from "3.hyps"(1) [OF ok True "3.prems"(1,2,3) rest r]
    have post: "sort_inv graph st' anc" "set deps \<subseteq> set (sorted_arr st')" "extends st st'"
      by simp_all
    from "3.prems"(3) True notanc plain have "dep \<in> set (sorted_arr st)"
      unfolding sort_inv_def by blast
    with post(3) have "dep \<in> set (sorted_arr st')"
      by (auto simp: extends_def)
    with post show ?thesis by simp
  next
    case False
    from "3.prems"(5) False obtain st1 where
      st1: "topologicalSort_visit m graph dep anc st = Inr st1" and
      r: "topologicalSort_forEach m graph n anc deps st1 = Inr st'"
      unfolding forEach_Cons_Inr by auto
    from "3.hyps"(2) [OF ok False "3.prems"(1,2,3) st1]
    have mid: "sort_inv graph st1 anc" "dep \<in> set (sorted_arr st1)" "extends st st1"
      by simp_all
    from "3.hyps"(3) [OF ok False st1 "3.prems"(1,2) mid(1) rest r]
    have post: "sort_inv graph st' anc" "set deps \<subseteq> set (sorted_arr st')" "extends st1 st'"
      by simp_all
    from mid(2) post(3) have "dep \<in> set (sorted_arr st')"
      by (auto simp: extends_def)
    with post extends_trans [OF mid(3) post(3)] show ?thesis by simp
  qed
qed


subsection \<open>The loop over the keys\<close>

lemma sort_keys:
  "ngDevModeOn m \<Longrightarrow> plainChildren graph \<Longrightarrow> sort_inv graph st [] \<Longrightarrow>
   topologicalSort_keys m graph ks st = Inr st' \<Longrightarrow>
   sort_inv graph st' [] \<and> set ks \<subseteq> set (sorted_arr st') \<and> extends st st'"
proof (induction ks arbitrary: st)
  case Nil
  then show ?case by (simp add: extends_refl)
next
  case (Cons k ks)
  from Cons.prems(4) obtain st1 where
    st1: "topologicalSort_visit m graph k [] st = Inr st1" and
    r: "topologicalSort_keys m graph ks st1 = Inr st'"
    by (auto split: sum.splits)
  from sort_steps(1) [OF Cons.prems(1,2,3) st1]
  have mid: "sort_inv graph st1 []" "k \<in> set (sorted_arr st1)" "extends st st1"
    by simp_all
  from Cons.IH [OF Cons.prems(1,2) mid(1) r]
  have post: "sort_inv graph st' []" "set ks \<subseteq> set (sorted_arr st')" "extends st1 st'"
    by simp_all
  from mid(2) post(3) have "k \<in> set (sorted_arr st')"
    by (auto simp: extends_def)
  with post extends_trans [OF mid(3) post(3)] show ?case by simp
qed

lemma sort_inv_init: "sort_inv graph \<lparr>sorted_arr = [], visited_obj = []\<rparr> []"
  by (simp add: sort_inv_def isVisited_def)

lemma topologicalSort_Inr:
  "(topologicalSort m graph = Inr r) =
     (\<exists>st. topologicalSort_keys m graph (map fst graph) \<lparr>sorted_arr = [], visited_obj = []\<rparr> = Inr st \<and>
           r = rev (sorted_arr st))"
  by (auto simp: topologicalSort_def split: sum.splits)

lemma topologicalSort_Inl:
  "(topologicalSort m graph = Inl e) =
     (topologicalSort_keys m graph (map fst graph) \<lparr>sorted_arr = [], visited_obj = []\<rparr> = Inl e)"
  by (auto simp: topologicalSort_def split: sum.splits)

lemma isEdge_keys: "isEdge graph p c \<Longrightarrow> p \<in> set (map fst graph)"
  by (force simp: isEdge_def split: option.splits dest: map_of_SomeD)

lemma topologicalSort_order:
  assumes "ngDevModeOn m" and "plainChildren graph" and "topologicalSort m graph = Inr r"
  shows "distinct r \<and> set r = set (map fst graph) \<and>
         (\<forall>p c. isEdge graph p c \<longrightarrow> c \<in> set r \<and> indexOf r p < indexOf r c)"
proof -
  from assms(3) obtain st where
    st: "topologicalSort_keys m graph (map fst graph) \<lparr>sorted_arr = [], visited_obj = []\<rparr> = Inr st"
    and r: "r = rev (sorted_arr st)"
    unfolding topologicalSort_Inr by blast
  let ?xs = "sorted_arr st"
  from sort_keys [OF assms(1,2) sort_inv_init st]
  have inv: "sort_inv graph st []" and keys: "set (map fst graph) \<subseteq> set ?xs"
    by simp_all
  from inv have d: "distinct ?xs"
    by (simp add: sort_inv_def)
  from inv have fin: "\<And>k. k \<in> set ?xs \<Longrightarrow> \<exists>deps. map_of graph k = Some deps \<and>
      (\<forall>d\<in>set deps. d \<in> set ?xs \<and> indexOf ?xs d < indexOf ?xs k)"
    unfolding sort_inv_def by blast
  have sub: "set ?xs \<subseteq> set (map fst graph)"
  proof
    fix k assume "k \<in> set ?xs"
    from fin [OF this] obtain deps where "map_of graph k = Some deps" by blast
    then show "k \<in> set (map fst graph)"
      by (force dest: map_of_SomeD)
  qed
  have "c \<in> set r \<and> indexOf r p < indexOf r c" if e: "isEdge graph p c" for p c
  proof -
    from e keys have p: "p \<in> set ?xs"
      by (auto dest!: isEdge_keys)
    from fin [OF p] e have c: "c \<in> set ?xs" and lt: "indexOf ?xs c < indexOf ?xs p"
      by (auto simp: isEdge_def)
    from indexOf_rev [OF d p] indexOf_rev [OF d c] lt c show ?thesis
      unfolding r by simp
  qed
  with d keys sub show ?thesis
    unfolding r by auto
qed

subsection \<open>An order along the edges leaves no cycle\<close>

lemma ordered_not_cyclic:
  assumes "\<And>p c. isEdge graph p c \<Longrightarrow> f p < (f c :: int)"
  shows "\<not> cyclic graph"
proof -
  have "f a < f b" if "(a, b) \<in> (edges graph)\<^sup>+" for a b
    using that
  proof (induction rule: trancl_induct)
    case (base y)
    then show ?case using assms by (simp add: edges_def)
  next
    case (step y z)
    then have "f y < f z" using assms by (simp add: edges_def)
    with step.IH show ?case by simp
  qed
  then show ?thesis
    unfolding cyclic_def by force
qed

lemma topologicalSort_Inr_acyclic:
  assumes "ngDevModeOn m" and "plainChildren graph" and "topologicalSort m graph = Inr r"
  shows "\<not> cyclic graph"
  using topologicalSort_order [OF assms] by (intro ordered_not_cyclic [of graph "indexOf r"]) blast

subsection \<open>No TypeError on a closed map\<close>

lemma closedGraph_deps:
  assumes "closedGraph graph" "map_of graph n = Some deps" "d \<in> set deps"
  shows "map_of graph d \<noteq> None"
proof -
  from assms(2) have "(n, deps) \<in> set graph"
    by (rule map_of_SomeD)
  with assms(1,3) have "d \<in> fst ` set graph"
    by (auto simp: closedGraph_def list_all_iff)
  then show ?thesis
    by (simp add: map_of_eq_None_iff)
qed

lemma no_TypeError:
  "closedGraph graph \<Longrightarrow> map_of graph n \<noteq> None \<Longrightarrow>
   topologicalSort_visit m graph n anc st \<noteq> Inl TypeError"
  "closedGraph graph \<Longrightarrow> \<forall>d\<in>set deps. map_of graph d \<noteq> None \<Longrightarrow>
   topologicalSort_forEach m graph n anc deps st \<noteq> Inl TypeError"
proof (induct m graph n anc st and m graph n anc deps st
    rule: topologicalSort_visit_topologicalSort_forEach.induct)
  case (1 m graph n anc st)
  from "1.prems"(2) obtain deps where deps: "map_of graph n = Some deps"
    by auto
  have "\<forall>d\<in>set deps. map_of graph d \<noteq> None"
    using closedGraph_deps [OF "1.prems"(1) deps] by blast
  from "1.hyps" [OF refl refl deps "1.prems"(1) this] deps show ?case
    by (simp add: visit_Inl)
next
  case (2 m graph n anc st)
  show ?case by (simp add: topologicalSort_forEach.simps)
next
  case (3 m graph n anc dep deps st)
  from "3.prems"(2) have dep: "map_of graph dep \<noteq> None" and deps: "\<forall>d\<in>set deps. map_of graph d \<noteq> None"
    by simp_all
  show ?case
  proof
    assume e: "topologicalSort_forEach m graph n anc (dep # deps) st = Inl TypeError"
    then have ok: "\<not> (ngDevModeOn m \<and> 0 \<le> indexOf anc dep)"
      unfolding forEach_Cons_Inl by (auto simp: indexOf_nonneg_iff split: if_splits)
    show False
    proof (cases "isVisited st dep")
      case True
      with e ok have "topologicalSort_forEach m graph n anc deps st = Inl TypeError"
        unfolding forEach_Cons_Inl by (auto simp: indexOf_nonneg_iff split: if_splits)
      with "3.hyps"(1) [OF ok True "3.prems"(1) deps] show False
        by simp
    next
      case False
      note v = False
      from e ok False consider
        "topologicalSort_visit m graph dep anc st = Inl TypeError" |
        st1 where "topologicalSort_visit m graph dep anc st = Inr st1"
          "topologicalSort_forEach m graph n anc deps st1 = Inl TypeError"
        unfolding forEach_Cons_Inl by (auto simp: indexOf_nonneg_iff split: if_splits)
      then show False
      proof cases
        case 1
        with "3.hyps"(2) [OF ok v "3.prems"(1) dep] show False by simp
      next
        case 2
        with "3.hyps"(3) [OF ok v 2(1) "3.prems"(1) deps] show False by simp
      qed
    qed
  qed
qed

subsection \<open>What a cycle error reports\<close>

lemma isChain_snoc:
  "isChain graph xs \<Longrightarrow> xs = [] \<or> isEdge graph (last xs) y \<Longrightarrow> isChain graph (xs @ [y])"
  by (induction graph xs rule: isChain.induct) auto

lemma error_reports:
  "topologicalSort_visit m graph n anc st = Inl (Error msg) \<Longrightarrow> isChain graph (anc @ [n]) \<Longrightarrow>
   cycleReport graph (Error msg)"
  "topologicalSort_forEach m graph n anc deps st = Inl (Error msg) \<Longrightarrow> isChain graph anc \<Longrightarrow>
   anc \<noteq> [] \<Longrightarrow> last anc = n \<Longrightarrow> \<forall>d\<in>set deps. isEdge graph n d \<Longrightarrow>
   cycleReport graph (Error msg)"
proof (induct m graph n anc st and m graph n anc deps st
    rule: topologicalSort_visit_topologicalSort_forEach.induct)
  case (1 m graph n anc st)
  from "1.prems"(1) obtain deps where deps: "map_of graph n = Some deps" and
    e: "topologicalSort_forEach m graph n (anc @ [n]) deps
          (st\<lparr>visited_obj := setProp n True (visited_obj st)\<rparr>) = Inl (Error msg)"
    unfolding visit_Inl by (auto split: option.splits)
  have "\<forall>d\<in>set deps. isEdge graph n d"
    using deps by (simp add: isEdge_def)
  from "1.hyps" [OF refl refl deps e "1.prems"(2) _ _ this] show ?case
    by simp
next
  case (2 m graph n anc st)
  then show ?case by (simp add: topologicalSort_forEach.simps)
next
  case (3 m graph n anc dep deps st)
  from "3.prems"(5) have edge: "isEdge graph n dep" and rest: "\<forall>d\<in>set deps. isEdge graph n d"
    by simp_all
  show ?case
  proof (cases "ngDevModeOn m \<and> dep \<in> set anc")
    case True
    with "3.prems"(1) have "msg = circularMessage dep n anc"
      unfolding forEach_Cons_Inl by simp
    with True edge "3.prems"(2,3,4) show ?thesis
      unfolding cycleReport_def by blast
  next
    case False
    then have ok: "\<not> (ngDevModeOn m \<and> 0 \<le> indexOf anc dep)"
      by (simp add: indexOf_nonneg_iff)
    show ?thesis
    proof (cases "isVisited st dep")
      case True
      with "3.prems"(1) False have "topologicalSort_forEach m graph n anc deps st = Inl (Error msg)"
        unfolding forEach_Cons_Inl by simp
      with "3.hyps"(1) [OF ok True _ "3.prems"(2,3,4) rest] show ?thesis
        by simp
    next
      case nv: False
      note v = nv
      have chain: "isChain graph (anc @ [dep])"
        using "3.prems"(2,4) edge by (intro isChain_snoc) simp_all
      from "3.prems"(1) False nv consider
        "topologicalSort_visit m graph dep anc st = Inl (Error msg)" |
        st1 where "topologicalSort_visit m graph dep anc st = Inr st1"
          "topologicalSort_forEach m graph n anc deps st1 = Inl (Error msg)"
        unfolding forEach_Cons_Inl by auto
      then show ?thesis
      proof cases
        case 1
        from "3.hyps"(2) [OF ok v 1 chain] show ?thesis .
      next
        case 2
        from "3.hyps"(3) [OF ok v 2(1) 2(2) "3.prems"(2,3,4) rest] show ?thesis .
      qed
    qed
  qed
qed

lemma keys_Inl:
  "topologicalSort_keys m graph ks st = Inl e \<Longrightarrow>
   \<exists>k\<in>set ks. \<exists>st1. topologicalSort_visit m graph k [] st1 = Inl e"
  by (induction ks arbitrary: st) (auto split: sum.splits)

lemma topologicalSort_cyclic:
  assumes dev: "ngDevModeOn m" and plain: "plainChildren graph" and closed: "closedGraph graph"
    and cyc: "cyclic graph"
  shows "\<exists>e. topologicalSort m graph = Inl e \<and> cycleReport graph e"
proof (cases "topologicalSort m graph")
  case (Inr r)
  from topologicalSort_Inr_acyclic [OF dev plain Inr] cyc show ?thesis
    by simp
next
  case (Inl e)
  then obtain k st1 where k: "k \<in> set (map fst graph)"
    and v: "topologicalSort_visit m graph k [] st1 = Inl e"
    unfolding topologicalSort_Inl by (blast dest: keys_Inl)
  from k have key: "map_of graph k \<noteq> None"
    by (simp add: map_of_eq_None_iff)
  show ?thesis
  proof (cases e)
    case TypeError
    with v no_TypeError(1) [OF closed key] show ?thesis
      by simp
  next
    case (Error msg)
    with v have "cycleReport graph (Error msg)"
      by (intro error_reports(1) [of m graph k "[]" st1]) simp_all
    with Inl Error show ?thesis by simp
  qed
qed


subsection \<open>A cycle error names a cycle\<close>

lemma isChain_reaches:
  "isChain graph chain \<Longrightarrow> d \<in> set chain \<Longrightarrow> (d, last chain) \<in> (edges graph)\<^sup>*"
proof (induction graph chain arbitrary: d rule: isChain.induct)
  case (3 graph x y ys)
  show ?case
  proof (cases "d = x")
    case True
    from "3.prems" "3.IH" [of y] have "(y, last (y # ys)) \<in> (edges graph)\<^sup>*" by simp
    moreover from "3.prems" have "(x, y) \<in> edges graph" by (simp add: edges_def)
    ultimately show ?thesis using True by (simp add: converse_rtrancl_into_rtrancl)
  next
    case False
    with 3 show ?thesis by simp
  qed
qed simp_all

lemma cycleReport_cyclic: "cycleReport graph e \<Longrightarrow> cyclic graph"
proof -
  assume "cycleReport graph e"
  then obtain dep k chain where c: "chain \<noteq> []" "last chain = k" "isChain graph chain"
    "isEdge graph k dep" "dep \<in> set chain"
    unfolding cycleReport_def by blast
  from isChain_reaches [OF c(3,5)] c(2) have "(dep, k) \<in> (edges graph)\<^sup>*" by simp
  moreover from c(4) have "(k, dep) \<in> edges graph" by (simp add: edges_def)
  ultimately have "(dep, dep) \<in> (edges graph)\<^sup>+" by (rule rtrancl_into_trancl1)
  then show ?thesis unfolding cyclic_def by blast
qed


section \<open>Properties of the full paths\<close>

lemma hasOwnProperty_key:
  assumes "''hasOwnProperty'' \<notin> set (map fst obj)"
  shows "hasOwnProperty obj key = Inr (key \<in> set (map fst obj))"
proof -
  from assms have "map_of obj ''hasOwnProperty'' = None"
    by (simp add: map_of_eq_None_iff)
  moreover have "(map_of obj key \<noteq> None) = (key \<in> set (map fst obj))"
    by (simp add: map_of_eq_None_iff)
  ultimately show ?thesis
    by (simp add: hasOwnProperty_def)
qed

lemma hasOwnProperty_hidden:
  assumes "''hasOwnProperty'' \<in> set (map fst obj)"
  shows "hasOwnProperty obj key = Inl TypeError"
proof -
  from assms have "map_of obj ''hasOwnProperty'' \<noteq> None"
    by (simp add: map_of_eq_None_iff)
  then show ?thesis
    by (auto simp: hasOwnProperty_def)
qed

lemma loop_find:
  assumes "''hasOwnProperty'' \<notin> set (map fst child)" "set rest \<subseteq> set child"
  shows "findFullParentPath_loop child rest k =
           Inr (map_option fst (find (\<lambda>(key, deps). k \<in> set deps) rest))"
  using assms(2)
proof (induction rest)
  case Nil
  then show ?case by simp
next
  case (Cons e rest)
  obtain key deps where e: "e = (key, deps)"
    by (cases e)
  with Cons.prems have "key \<in> set (map fst child)"
    by force
  with Cons e show ?case
    by (simp add: hasOwnProperty_key [OF assms(1)] indexOf_nonneg_iff)
qed

lemma loop_firstParent:
  "''hasOwnProperty'' \<notin> set (map fst graph) \<Longrightarrow>
   findFullParentPath_loop graph graph k = Inr (firstParent graph k)"
  by (simp add: loop_find firstParent_def)

lemma visit_root:
  "''hasOwnProperty'' \<notin> set (map fst graph) \<Longrightarrow> firstParent graph k = None \<Longrightarrow>
   findFullParentPath_visit graph k = Some (Inr None)"
  by (subst findFullParentPath_visit.simps) (simp add: loop_firstParent)

lemma visit_nested:
  "''hasOwnProperty'' \<notin> set (map fst graph) \<Longrightarrow> firstParent graph k = Some p \<Longrightarrow>
   findFullParentPath_visit graph k =
     Option.bind (findFullParentPath_visit graph p)
       (\<lambda>r. Some (case r of
                    Inl e \<Rightarrow> Inl e
                  | Inr parent \<Rightarrow> Inr (Some (case parent of None \<Rightarrow> p | Some q \<Rightarrow> q @ ''.'' @ p))))"
  by (subst findFullParentPath_visit.simps) (simp add: loop_firstParent)

lemma rooted_visit:
  assumes "''hasOwnProperty'' \<notin> set (map fst graph)"
  shows "rooted graph k \<Longrightarrow> \<exists>r. findFullParentPath_visit graph k = Some (Inr r)"
proof (induction rule: rooted.induct)
  case (root k)
  then show ?case by (simp add: visit_root [OF assms])
next
  case (nested k p)
  then show ?case by (auto simp: visit_nested [OF assms])
qed

lemma visit_rooted_imp:
  assumes "findFullParentPath_visit graph k = Some r"
  shows "''hasOwnProperty'' \<notin> set (map fst graph) \<longrightarrow> rooted graph k"
proof (rule findFullParentPath_visit.raw_induct
    [where P = "\<lambda>g k r. ''hasOwnProperty'' \<notin> set (map fst g) \<longrightarrow> rooted g k", OF _ assms])
  fix visit :: "StateKeyGraph \<Rightarrow> string \<Rightarrow> (js_error + string option) option" and g k r
  assume IH: "\<And>g k r. visit g k = Some r \<Longrightarrow> ''hasOwnProperty'' \<notin> set (map fst g) \<longrightarrow> rooted g k"
    and eq: "(case findFullParentPath_loop g g k of
                Inl e \<Rightarrow> Some (Inl e)
              | Inr None \<Rightarrow> Some (Inr None)
              | Inr (Some key) \<Rightarrow>
                  Option.bind (visit g key)
                    (\<lambda>r. Some (case r of
                                 Inl e \<Rightarrow> Inl e
                               | Inr parent \<Rightarrow>
                                   Inr (Some (case parent of None \<Rightarrow> key | Some p \<Rightarrow> p @ ''.'' @ key))))) =
             Some r"
  show "''hasOwnProperty'' \<notin> set (map fst g) \<longrightarrow> rooted g k"
  proof
    assume h: "''hasOwnProperty'' \<notin> set (map fst g)"
    show "rooted g k"
    proof (cases "firstParent g k")
      case None
      then show ?thesis by (rule rooted.root)
    next
      case (Some p)
      with eq obtain q where "visit g p = Some q"
        by (auto simp: loop_firstParent [OF h] bind_eq_Some_conv)
      from IH [OF this] h have "rooted g p"
        by simp
      with Some show ?thesis
        by (rule rooted.nested)
    qed
  qed
qed

lemma visit_rooted:
  "findFullParentPath_visit graph k = Some r \<Longrightarrow> ''hasOwnProperty'' \<notin> set (map fst graph) \<Longrightarrow>
   rooted graph k"
  using visit_rooted_imp by blast

lemma firstParent_key: "firstParent graph k = Some p \<Longrightarrow> p \<in> set (map fst graph)"
  by (force simp: firstParent_def find_Some_iff in_set_conv_nth)

lemma pathOf_root:
  "''hasOwnProperty'' \<notin> set (map fst graph) \<Longrightarrow> firstParent graph k = None \<Longrightarrow> pathOf graph k = k"
  by (simp add: pathOf_def visit_root)

lemma visit_nonempty:
  assumes "findFullParentPath_visit graph k = Some (Inr (Some s))" "[] \<notin> set (map fst graph)"
    and h: "''hasOwnProperty'' \<notin> set (map fst graph)"
  shows "s \<noteq> []"
proof (cases "firstParent graph k")
  case None
  with assms(1) show ?thesis by (simp add: visit_root [OF h])
next
  case (Some p)
  from firstParent_key [OF Some] assms(2) have pne: "p \<noteq> []" by blast
  from assms(1) obtain y where "findFullParentPath_visit graph p = Some y"
    "(case y of
        Inl e \<Rightarrow> Inl e
      | Inr parent \<Rightarrow> Inr (Some (case parent of None \<Rightarrow> p | Some q \<Rightarrow> q @ ''.'' @ p))) =
     Inr (Some s)"
    unfolding visit_nested [OF h Some] by (auto simp: bind_eq_Some_conv)
  with pne show ?thesis
    by (cases y) (auto split: option.splits)
qed

lemma pathOf_nested:
  assumes p: "firstParent graph k = Some p" and r: "rooted graph k"
    and ne: "[] \<notin> set (map fst graph)"
    and h: "''hasOwnProperty'' \<notin> set (map fst graph)"
  shows "pathOf graph k = pathOf graph p @ ''.'' @ k"
proof -
  from rooted_visit [OF h r] obtain v where v: "findFullParentPath_visit graph k = Some (Inr v)"
    by blast
  then obtain y where y: "findFullParentPath_visit graph p = Some y"
    "(case y of
        Inl e \<Rightarrow> Inl e
      | Inr parent \<Rightarrow> Inr (Some (case parent of None \<Rightarrow> p | Some q \<Rightarrow> q @ ''.'' @ p))) =
     Inr v"
    unfolding visit_nested [OF h p] by (auto simp: bind_eq_Some_conv)
  then obtain q where q: "findFullParentPath_visit graph p = Some (Inr q)"
    and v': "v = Some (case q of None \<Rightarrow> p | Some s \<Rightarrow> s @ ''.'' @ p)"
    by (cases y) auto
  from firstParent_key [OF p] ne have pne: "p \<noteq> []" by blast
  have inner: "(case q of None \<Rightarrow> p | Some s \<Rightarrow> s @ ''.'' @ p) = pathOf graph p"
  proof (cases q)
    case None
    with q show ?thesis by (simp add: pathOf_def)
  next
    case (Some s)
    with q visit_nonempty [OF _ ne h] have "s \<noteq> []" by blast
    with q Some show ?thesis by (simp add: pathOf_def)
  qed
  have "pathOf graph p \<noteq> []"
    using inner pne by (cases q) auto
  with v v' inner show ?thesis
    by (simp add: pathOf_def)
qed

lemma setProp_new:
  "k \<notin> fst ` set al \<Longrightarrow> k \<noteq> ''__proto__'' \<Longrightarrow> setProp k v al = al @ [(k, v)]"
  by (induction al) (auto simp: setProp_def)

lemma for_rooted:
  assumes h: "''hasOwnProperty'' \<notin> set (map fst graph)"
    and "\<forall>k\<in>set ks. rooted graph k" "distinct ks" "set ks \<inter> fst ` set acc = {}"
    and "set ks \<subseteq> set (map fst graph)" "''__proto__'' \<notin> set ks"
  shows "findFullParentPath_for graph ks acc =
           Some (Inr (acc @ map (\<lambda>k. (k, pathOf graph k)) ks))"
  using assms(2-)
proof (induction ks arbitrary: acc)
  case Nil
  then show ?case by simp
next
  case (Cons k ks)
  from Cons.prems(1) rooted_visit [OF h] obtain v where
    v: "findFullParentPath_visit graph k = Some (Inr v)"
    by force
  have val: "(case v of None \<Rightarrow> k | Some p \<Rightarrow> if p \<noteq> [] then p @ ''.'' @ k else k) = pathOf graph k"
    using v by (simp add: pathOf_def split: option.splits)
  from Cons.prems(3) have new: "k \<notin> fst ` set acc" by auto
  from Cons.prems(5) have np: "k \<noteq> ''__proto__''" by auto
  from Cons.prems(4) have own: "hasOwnProperty graph k = Inr True"
    by (simp add: hasOwnProperty_key [OF h])
  have "findFullParentPath_for graph ks (acc @ [(k, pathOf graph k)]) =
          Some (Inr ((acc @ [(k, pathOf graph k)]) @ map (\<lambda>k. (k, pathOf graph k)) ks))"
    using Cons.prems by (intro Cons.IH) auto
  with v val own show ?case
    by (simp add: setProp_new [OF new np])
qed

lemma for_None:
  assumes h: "''hasOwnProperty'' \<notin> set (map fst graph)"
  shows "k \<in> set ks \<Longrightarrow> \<not> rooted graph k \<Longrightarrow> set ks \<subseteq> set (map fst graph) \<Longrightarrow>
         findFullParentPath_for graph ks acc = None"
proof (induction ks arbitrary: acc)
  case Nil
  then show ?case by simp
next
  case (Cons a ks)
  from Cons.prems(3) have own: "hasOwnProperty graph a = Inr True"
    by (simp add: hasOwnProperty_key [OF h])
  show ?case
  proof (cases "findFullParentPath_visit graph a")
    case None
    with own show ?thesis by simp
  next
    case (Some v)
    from visit_rooted [OF Some h] Cons.prems have k: "k \<in> set ks" by auto
    from rooted_visit [OF h visit_rooted [OF Some h]] Some obtain r where v: "v = Inr r"
      by auto
    from Cons.prems(3) have "set ks \<subseteq> set (map fst graph)" by simp
    from Cons.IH [OF k Cons.prems(2) this] Some own v show ?thesis by simp
  qed
qed

lemma for_hidden:
  "''hasOwnProperty'' \<in> set (map fst graph) \<Longrightarrow> ks \<noteq> [] \<Longrightarrow>
   findFullParentPath_for graph ks acc = Some (Inl TypeError)"
  by (cases ks) (simp_all add: hasOwnProperty_hidden)

lemma findFullParentPath_paths:
  assumes "distinct (map fst graph)" "\<forall>k\<in>set (map fst graph). rooted graph k"
    and "''hasOwnProperty'' \<notin> set (map fst graph)" "''__proto__'' \<notin> set (map fst graph)"
  shows "findFullParentPath graph [] =
           Some (Inr (map (\<lambda>k. (k, pathOf graph k)) (map fst graph)))"
  using for_rooted [OF assms(3,2,1), of "[]"] assms(4) by (simp add: findFullParentPath_def)

lemma map_of_paths:
  "k \<in> set ks \<Longrightarrow> map_of (map (\<lambda>k. (k, f k)) ks) k = Some (f k)"
  by (induction ks) auto


lemma find_filter: "filter P xs = x # rest \<Longrightarrow> find P xs = Some x"
  by (induction xs) (auto split: if_splits)

lemma finite_edges: "finite (edges graph)"
proof -
  have "edges graph \<subseteq> fst ` set graph \<times> \<Union> (set ` snd ` set graph)"
    by (force simp: edges_def isEdge_def split: option.splits dest: map_of_SomeD)
  then show ?thesis
    by (rule finite_subset) simp
qed

lemma firstParent_edge: "firstParent graph k = Some p \<Longrightarrow> distinct (map fst graph) \<Longrightarrow> (p, k) \<in> edges graph"
proof -
  assume p: "firstParent graph k = Some p" and d: "distinct (map fst graph)"
  from p obtain deps where "find (\<lambda>(key, deps). k \<in> set deps) graph = Some (p, deps)"
    by (auto simp: firstParent_def)
  then have "(p, deps) \<in> set graph" "k \<in> set deps"
    by (auto simp: find_Some_iff in_set_conv_nth)
  with d show ?thesis
    by (simp add: edges_def isEdge_def)
qed

lemma acyclic_rooted:
  assumes "\<not> cyclic graph" "distinct (map fst graph)"
  shows "rooted graph k"
proof -
  from assms(1) have "acyclic (edges graph)"
    by (simp add: cyclic_def acyclic_def)
  with finite_edges have "wf (edges graph)"
    by (rule finite_acyclic_wf)
  then show ?thesis
  proof (induction k rule: wf_induct_rule)
    case (less k)
    show ?case
    proof (cases "firstParent graph k")
      case None
      then show ?thesis by (rule rooted.root)
    next
      case (Some p)
      from firstParent_edge [OF Some assms(2)] have "rooted graph p"
        by (rule less.IH)
      with Some show ?thesis by (rule rooted.nested)
    qed
  qed
qed

lemma not_rooted_cycle:
  assumes "rooted graph k" "firstParent graph a = Some b" "firstParent graph b = Some a"
  shows "k \<noteq> a \<and> k \<noteq> b"
  using assms by (induction rule: rooted.induct) auto

section \<open>The claims about the topological sort\<close>

text \<open>
  Claim C2, as amended. When the guard is on (\<^verbatim>\<open>ngDevMode\<close> is not defined, or is
  truthy), on every adjacency map that contains a cycle and in which no child bears a
  name that \<^verbatim>\<open>Object.prototype\<close> defines, \<open>topologicalSort\<close> throws and returns no
  order. When the map is closed, what it throws is the error of a circular dependency:
  its message names a dependency \<open>dep\<close>, the name \<open>k\<close> that requires it, and the
  ancestors of the running visit joined by \<^verbatim>\<open>->\<close>, a chain of edges that ends in
  \<open>k\<close> and passes through \<open>dep\<close>, so that the edge from \<open>k\<close> to \<open>dep\<close> closes a
  cycle. (On a map that is not closed the visit of a child that is no key may throw a
  \<^verbatim>\<open>TypeError\<close> first.)
\<close>

theorem topologicalSort_cycle_error:
  assumes "ngDevModeOn ngDevMode" and "plainChildren graph" and "cyclic graph"
  shows "(\<exists>e. topologicalSort ngDevMode graph = Inl e) \<and>
         (closedGraph graph \<longrightarrow>
            (\<exists>dep k chain.
               topologicalSort ngDevMode graph = Inl (Error (circularMessage dep k chain)) \<and>
               chain \<noteq> [] \<and> last chain = k \<and> isChain graph chain \<and>
               isEdge graph k dep \<and> dep \<in> set chain))"
proof
  show "\<exists>e. topologicalSort ngDevMode graph = Inl e"
    using topologicalSort_Inr_acyclic [OF assms(1,2)] assms(3)
    by (cases "topologicalSort ngDevMode graph") auto
  show "closedGraph graph \<longrightarrow>
      (\<exists>dep k chain.
         topologicalSort ngDevMode graph = Inl (Error (circularMessage dep k chain)) \<and>
         chain \<noteq> [] \<and> last chain = k \<and> isChain graph chain \<and>
         isEdge graph k dep \<and> dep \<in> set chain)"
    using topologicalSort_cyclic [OF assms(1,2) _ assms(3)] unfolding cycleReport_def by blast
qed

lemma cyclic_AB: "cyclic [(''A'', [''B'']), (''B'', [''A''])]"
proof -
  let ?g = "[(''A'', [''B'']), (''B'', [''A''])]"
  have "(''A'', ''B'') \<in> edges ?g" "(''B'', ''A'') \<in> edges ?g"
    by (simp_all add: edges_def isEdge_def)
  then have "(''A'', ''A'') \<in> (edges ?g)\<^sup>+"
    by (blast intro: trancl_into_trancl r_into_trancl)
  then show ?thesis
    unfolding cyclic_def by blast
qed

lemma sort_AB_dev:
  "topologicalSort None [(''A'', [''B'']), (''B'', [''A''])] =
     Inl (Error (circularMessage ''A'' ''B'' [''A'', ''B'']))"
  by (simp add: topologicalSort_def topologicalSort_visit.simps topologicalSort_forEach.simps
      ngDevModeOn_def Let_def isVisited_def setProp_def objectPrototype_def)

text \<open>
  Claim C2, the amended statement on the map \<^verbatim>\<open>{A: [B], B: [A]}\<close> with
  \<^verbatim>\<open>ngDevMode\<close> not defined: the error is
  \<^verbatim>\<open>Circular dependency 'A' is required by 'B': A -> B\<close>.
\<close>

theorem topologicalSort_cycle_error_witness:
  "ngDevModeOn None \<and> plainChildren [(''A'', [''B'']), (''B'', [''A''])] \<and>
   closedGraph [(''A'', [''B'']), (''B'', [''A''])] \<and>
   cyclic [(''A'', [''B'']), (''B'', [''A''])] \<and>
   topologicalSort None [(''A'', [''B'']), (''B'', [''A''])] =
     Inl (Error (circularMessage ''A'' ''B'' [''A'', ''B''])) \<and>
   circularMessage ''A'' ''B'' [''A'', ''B''] =
     ''Circular dependency '' @ [CHR 0x27] @ ''A'' @ [CHR 0x27] @ '' is required by '' @
     [CHR 0x27] @ ''B'' @ [CHR 0x27] @ '': A -> B''"
proof -
  have h1: "ngDevModeOn None"
    by (simp add: ngDevModeOn_def)
  have h2: "closedGraph [(''A'', [''B'']), (''B'', [''A''])]"
    by (simp add: closedGraph_def)
  note h3 = cyclic_AB
  have h4: "plainChildren [(''A'', [''B'']), (''B'', [''A''])]"
    by (simp add: plainChildren_def objectPrototype_def)
  from topologicalSort_cycle_error [OF h1 h4 h3] h2 obtain dep k chain where
    "topologicalSort None [(''A'', [''B'']), (''B'', [''A''])] =
       Inl (Error (circularMessage dep k chain))"
    by blast
  with sort_AB_dev h1 h2 h3 h4 show ?thesis
    by (simp add: circularMessage_def)
qed

lemma sort_AB_prod:
  "topologicalSort (Some False) [(''A'', [''B'']), (''B'', [''A''])] = Inr [''A'', ''B'']"
  by (simp add: topologicalSort_def topologicalSort_visit.simps topologicalSort_forEach.simps
      ngDevModeOn_def Let_def isVisited_def setProp_def objectPrototype_def)

lemma cyclic_toString: "cyclic [(''a'', [''toString'']), (''toString'', [''a''])]"
proof -
  let ?g = "[(''a'', [''toString'']), (''toString'', [''a''])]"
  have "(''a'', ''toString'') \<in> edges ?g" "(''toString'', ''a'') \<in> edges ?g"
    by (simp_all add: edges_def isEdge_def)
  then have "(''a'', ''a'') \<in> (edges ?g)\<^sup>+"
    by (blast intro: trancl_into_trancl r_into_trancl)
  then show ?thesis
    unfolding cyclic_def by blast
qed

lemma sort_toString_dev:
  "topologicalSort None [(''a'', [''toString'']), (''toString'', [''a''])] =
     Inr [''toString'', ''a'']"
  by (simp add: topologicalSort_def topologicalSort_visit.simps topologicalSort_forEach.simps
      ngDevModeOn_def Let_def isVisited_def setProp_def objectPrototype_def)

text \<open>
  Claim C2 as stated fails: with \<^verbatim>\<open>ngDevMode\<close> set to \<^verbatim>\<open>false\<close>, as production
  builds set it, the check for a cycle is skipped, and on the cyclic map
  \<^verbatim>\<open>{A: [B], B: [A]}\<close> the function returns the order \<^verbatim>\<open>[A, B]\<close>. And with the
  guard on, on the cyclic map \<^verbatim>\<open>{a: [toString], toString: [a]}\<close> the child
  \<^verbatim>\<open>toString\<close> reads as visited before any visit, because \<^verbatim>\<open>visited\<close> inherits a
  property of that name: the cycle is never entered and the function returns the order
  \<^verbatim>\<open>[toString, a]\<close>.
\<close>

theorem topologicalSort_cycle_counterexample:
  "closedGraph [(''A'', [''B'']), (''B'', [''A''])] \<and>
   cyclic [(''A'', [''B'']), (''B'', [''A''])] \<and>
   topologicalSort (Some False) [(''A'', [''B'']), (''B'', [''A''])] = Inr [''A'', ''B''] \<and>
   ngDevModeOn None \<and>
   closedGraph [(''a'', [''toString'']), (''toString'', [''a''])] \<and>
   cyclic [(''a'', [''toString'']), (''toString'', [''a''])] \<and>
   topologicalSort None [(''a'', [''toString'']), (''toString'', [''a''])] =
     Inr [''toString'', ''a'']"
  using cyclic_AB sort_AB_prod cyclic_toString sort_toString_dev
  by (simp add: closedGraph_def ngDevModeOn_def)

text \<open>
  Claim C4 against the code, on the map of the function's own documentation,
  \<^verbatim>\<open>{cart: [saved], saved: [items], items: []}\<close>: whatever \<^verbatim>\<open>ngDevMode\<close> is,
  \<open>topologicalSort\<close> returns \<^verbatim>\<open>[cart, saved, items]\<close>, each parent before its child.
  The visit pushes a name after its children, and the function returns the list reversed.
\<close>

theorem topologicalSort_parents_first:
  "topologicalSort ngDevMode [(''cart'', [''saved'']), (''saved'', [''items'']), (''items'', [])] =
     Inr [''cart'', ''saved'', ''items'']"
  by (simp add: topologicalSort_def topologicalSort_visit.simps topologicalSort_forEach.simps
      Let_def isVisited_def setProp_def objectPrototype_def)

text \<open>
  The order the code does give. When the guard is on, on every closed adjacency map
  without a cycle in which no child bears a name that \<^verbatim>\<open>Object.prototype\<close> defines,
  \<open>topologicalSort\<close> returns a list that holds every key of the map exactly once, and
  for every edge the index of the parent in it is below the index of the child.
\<close>

theorem topologicalSort_acyclic:
  assumes "ngDevModeOn ngDevMode" and "plainChildren graph" and "closedGraph graph"
    and "\<not> cyclic graph"
  shows "\<exists>r. topologicalSort ngDevMode graph = Inr r \<and> distinct r \<and>
           set r = set (map fst graph) \<and>
           (\<forall>parent child. isEdge graph parent child \<longrightarrow>
              child \<in> set r \<and> indexOf r parent < indexOf r child)"
proof (cases "topologicalSort ngDevMode graph")
  case (Inr r)
  with topologicalSort_order [OF assms(1,2) Inr] show ?thesis
    by blast
next
  case (Inl e)
  then obtain k st1 where k: "k \<in> set (map fst graph)"
    and v: "topologicalSort_visit ngDevMode graph k [] st1 = Inl e"
    unfolding topologicalSort_Inl by (blast dest: keys_Inl)
  from k have key: "map_of graph k \<noteq> None"
    by (simp add: map_of_eq_None_iff)
  show ?thesis
  proof (cases e)
    case TypeError
    with v no_TypeError(1) [OF assms(3) key] show ?thesis
      by simp
  next
    case (Error msg)
    with v have "cycleReport graph (Error msg)"
      by (intro error_reports(1) [of ngDevMode graph k "[]" st1]) simp_all
    from cycleReport_cyclic [OF this] assms(4) show ?thesis
      by simp
  qed
qed

lemma cart_not_cyclic:
  "\<not> cyclic [(''cart'', [''saved'']), (''saved'', [''items'']), (''items'', [])]"
proof (rule ordered_not_cyclic)
  fix p c
  assume "isEdge [(''cart'', [''saved'']), (''saved'', [''items'']), (''items'', [])] p c"
  then show "(if p = ''cart'' then 0 else if p = ''saved'' then 1 else (2 :: int)) <
        (if c = ''cart'' then 0 else if c = ''saved'' then 1 else 2)"
    by (auto simp: isEdge_def split: if_splits)
qed

text \<open>
  The order on the map \<^verbatim>\<open>{cart: [saved], saved: [items], items: []}\<close>:
  \<^verbatim>\<open>cart\<close> at index 0, \<^verbatim>\<open>saved\<close> at 1, \<^verbatim>\<open>items\<close> at 2.
\<close>

theorem topologicalSort_acyclic_witness:
  "ngDevModeOn None \<and>
   plainChildren [(''cart'', [''saved'']), (''saved'', [''items'']), (''items'', [])] \<and>
   closedGraph [(''cart'', [''saved'']), (''saved'', [''items'']), (''items'', [])] \<and>
   \<not> cyclic [(''cart'', [''saved'']), (''saved'', [''items'']), (''items'', [])] \<and>
   (\<exists>r. topologicalSort None [(''cart'', [''saved'']), (''saved'', [''items'']), (''items'', [])] =
          Inr r \<and>
        distinct r \<and> set r = {''cart'', ''saved'', ''items''} \<and>
        indexOf r ''cart'' < indexOf r ''saved'' \<and> indexOf r ''saved'' < indexOf r ''items'')"
proof -
  let ?g = "[(''cart'', [''saved'']), (''saved'', [''items'']), (''items'', [])]"
  have h1: "ngDevModeOn None"
    by (simp add: ngDevModeOn_def)
  have h2: "closedGraph ?g"
    by (simp add: closedGraph_def)
  note h3 = cart_not_cyclic
  have h4: "plainChildren ?g"
    by (simp add: plainChildren_def objectPrototype_def)
  have e: "isEdge ?g ''cart'' ''saved''" "isEdge ?g ''saved'' ''items''"
    by (simp_all add: isEdge_def)
  from topologicalSort_acyclic [OF h1 h4 h2 h3] obtain r where
    r: "topologicalSort None ?g = Inr r" "distinct r" "set r = set (map fst ?g)"
      "\<forall>parent child. isEdge ?g parent child \<longrightarrow>
         child \<in> set r \<and> indexOf r parent < indexOf r child"
    by blast
  from r(4) e have "indexOf r ''cart'' < indexOf r ''saved''"
    "indexOf r ''saved'' < indexOf r ''items''"
    by blast+
  with r(1,2,3) have "\<exists>r. topologicalSort None ?g = Inr r \<and>
        distinct r \<and> set r = {''cart'', ''saved'', ''items''} \<and>
        indexOf r ''cart'' < indexOf r ''saved'' \<and> indexOf r ''saved'' < indexOf r ''items''"
    by auto
  with h1 h2 h3 h4 show ?thesis
    by (simp only: simp_thms)
qed

section \<open>The claims about the full paths\<close>

text \<open>
  Claim C6, as amended. On every adjacency map with distinct, non-empty keys, none of
  them \<^verbatim>\<open>hasOwnProperty\<close> or \<^verbatim>\<open>__proto__\<close>, in which every key is rooted (following
  first parents from it ends at a key with no parent, as it does from every key of a map
  without a cycle), \<open>findFullParentPath\<close> returns a map with the same keys in the same
  order; a key with no parent has its own name as its path, and a key with a parent has
  the path of its first parent, a dot, and its own name.
\<close>

theorem findFullParentPath_full_paths:
  assumes "distinct (map fst graph)" and "[] \<notin> set (map fst graph)"
    and "''hasOwnProperty'' \<notin> set (map fst graph)" and "''__proto__'' \<notin> set (map fst graph)"
    and "\<forall>k\<in>set (map fst graph). rooted graph k"
  shows "\<exists>paths. findFullParentPath graph [] = Some (Inr paths) \<and>
           map fst paths = map fst graph \<and>
           (\<forall>k\<in>set (map fst graph).
              (firstParent graph k = None \<longrightarrow> map_of paths k = Some k) \<and>
              (\<forall>p. firstParent graph k = Some p \<longrightarrow>
                 (\<exists>pp. map_of paths p = Some pp \<and> map_of paths k = Some (pp @ ''.'' @ k))))"
proof -
  let ?paths = "map (\<lambda>k. (k, pathOf graph k)) (map fst graph)"
  have r: "findFullParentPath graph [] = Some (Inr ?paths)"
    using assms(1,5,3,4) by (rule findFullParentPath_paths)
  have keys: "map fst ?paths = map fst graph"
    by (simp add: comp_def)
  have "(firstParent graph k = None \<longrightarrow> map_of ?paths k = Some k) \<and>
        (\<forall>p. firstParent graph k = Some p \<longrightarrow>
           (\<exists>pp. map_of ?paths p = Some pp \<and> map_of ?paths k = Some (pp @ ''.'' @ k)))"
    if k: "k \<in> set (map fst graph)" for k
  proof (intro conjI impI allI)
    assume "firstParent graph k = None"
    then show "map_of ?paths k = Some k"
      using map_of_paths [OF k, of "pathOf graph"] by (simp add: pathOf_root [OF assms(3)])
  next
    fix p assume p: "firstParent graph k = Some p"
    from k assms(5) have "rooted graph k" by blast
    from pathOf_nested [OF p this assms(2,3)] map_of_paths [OF k, of "pathOf graph"]
      map_of_paths [OF firstParent_key [OF p], of "pathOf graph"]
    show "\<exists>pp. map_of ?paths p = Some pp \<and> map_of ?paths k = Some (pp @ ''.'' @ k)"
      by simp
  qed
  with r keys show ?thesis
    by blast
qed

lemma rooted_cart:
  "rooted [(''cart'', [''saved'']), (''saved'', [''items'']), (''items'', [])] ''cart''"
  "rooted [(''cart'', [''saved'']), (''saved'', [''items'']), (''items'', [])] ''saved''"
  "rooted [(''cart'', [''saved'']), (''saved'', [''items'']), (''items'', [])] ''items''"
proof -
  let ?g = "[(''cart'', [''saved'']), (''saved'', [''items'']), (''items'', [])]"
  show c: "rooted ?g ''cart''"
    by (rule rooted.root) (simp add: firstParent_def)
  have "firstParent ?g ''saved'' = Some ''cart''"
    by (simp add: firstParent_def)
  then show s: "rooted ?g ''saved''"
    using c by (rule rooted.nested)
  have "firstParent ?g ''items'' = Some ''saved''"
    by (simp add: firstParent_def)
  then show "rooted ?g ''items''"
    using s by (rule rooted.nested)
qed

text \<open>
  Claim C6, the amended statement on the map
  \<^verbatim>\<open>{cart: [saved], saved: [items], items: []}\<close>: the result is
  \<^verbatim>\<open>{cart: "cart", saved: "cart.saved", items: "cart.saved.items"}\<close>.
\<close>

theorem findFullParentPath_full_paths_witness:
  "distinct (map fst [(''cart'', [''saved'']), (''saved'', [''items'']), (''items'', [])]) \<and>
   [] \<notin> set (map fst [(''cart'', [''saved'']), (''saved'', [''items'']), (''items'', [])]) \<and>
   ''hasOwnProperty'' \<notin>
     set (map fst [(''cart'', [''saved'']), (''saved'', [''items'']), (''items'', [])]) \<and>
   ''__proto__'' \<notin>
     set (map fst [(''cart'', [''saved'']), (''saved'', [''items'']), (''items'', [])]) \<and>
   rooted [(''cart'', [''saved'']), (''saved'', [''items'']), (''items'', [])] ''cart'' \<and>
   rooted [(''cart'', [''saved'']), (''saved'', [''items'']), (''items'', [])] ''saved'' \<and>
   rooted [(''cart'', [''saved'']), (''saved'', [''items'']), (''items'', [])] ''items'' \<and>
   (\<exists>paths.
      findFullParentPath [(''cart'', [''saved'']), (''saved'', [''items'']), (''items'', [])] [] =
        Some (Inr paths) \<and>
      map fst paths = [''cart'', ''saved'', ''items''] \<and>
      map_of paths ''cart'' = Some ''cart'' \<and>
      map_of paths ''saved'' = Some ''cart.saved'' \<and>
      map_of paths ''items'' = Some ''cart.saved.items'')"
proof -
  let ?g = "[(''cart'', [''saved'']), (''saved'', [''items'']), (''items'', [])]"
  have h1: "distinct (map fst ?g)"
    by simp
  have h2: "[] \<notin> set (map fst ?g)"
    by simp
  have h3: "\<forall>k\<in>set (map fst ?g). rooted ?g k"
    using rooted_cart by simp
  have h4: "''hasOwnProperty'' \<notin> set (map fst ?g)"
    by simp
  have h5: "''__proto__'' \<notin> set (map fst ?g)"
    by simp
  have fp: "firstParent ?g ''cart'' = None" "firstParent ?g ''saved'' = Some ''cart''"
    "firstParent ?g ''items'' = Some ''saved''"
    by (simp_all add: firstParent_def)
  from findFullParentPath_full_paths [OF h1 h2 h4 h5 h3] obtain paths where
    r: "findFullParentPath ?g [] = Some (Inr paths)" and
    keys: "map fst paths = map fst ?g" and
    each: "\<forall>k\<in>set (map fst ?g).
       (firstParent ?g k = None \<longrightarrow> map_of paths k = Some k) \<and>
       (\<forall>p. firstParent ?g k = Some p \<longrightarrow>
          (\<exists>pp. map_of paths p = Some pp \<and> map_of paths k = Some (pp @ ''.'' @ k)))"
    by blast
  from each fp(1) have c: "map_of paths ''cart'' = Some ''cart''"
    by simp
  from each fp(2) c have s: "map_of paths ''saved'' = Some ''cart.saved''"
    by simp
  from each fp(3) s have i: "map_of paths ''items'' = Some ''cart.saved.items''"
    by simp
  from r keys c s i have "\<exists>paths. findFullParentPath ?g [] = Some (Inr paths) \<and>
      map fst paths = [''cart'', ''saved'', ''items''] \<and>
      map_of paths ''cart'' = Some ''cart'' \<and>
      map_of paths ''saved'' = Some ''cart.saved'' \<and>
      map_of paths ''items'' = Some ''cart.saved.items''"
    by simp
  with h1 h2 h4 h5 rooted_cart show ?thesis
    by (simp only: simp_thms)
qed

lemma firstParent_AB:
  "firstParent [(''A'', [''B'']), (''B'', [''A''])] ''A'' = Some ''B''"
  "firstParent [(''A'', [''B'']), (''B'', [''A''])] ''B'' = Some ''A''"
  by (simp_all add: firstParent_def)

lemma unnamed_parent_paths:
  "findFullParentPath [([], [''a'']), (''a'', [])] [] = Some (Inr [([], []), (''a'', ''a'')])"
  by (simp add: findFullParentPath_def findFullParentPath_visit.simps hasOwnProperty_def
      setProp_def)

lemma hidden_method_paths:
  "findFullParentPath [(''hasOwnProperty'', []), (''a'', [])] [] = Some (Inl TypeError)"
  by (simp add: findFullParentPath_def hasOwnProperty_def)

lemma proto_key_paths:
  "findFullParentPath [(''__proto__'', []), (''a'', [])] [] = Some (Inr [(''a'', ''a'')])"
  by (simp add: findFullParentPath_def findFullParentPath_visit.simps hasOwnProperty_def
      setProp_def)

text \<open>
  Claim C6 as stated fails: on the map \<^verbatim>\<open>{A: [B], B: [A]}\<close> the search for the
  ancestors of \<^verbatim>\<open>A\<close> never ends, and \<open>findFullParentPath\<close> returns no map. Under
  a parent whose name is the empty string, as in \<^verbatim>\<open>{"": [a], a: []}\<close>, the nested
  node \<^verbatim>\<open>a\<close> gets the path \<^verbatim>\<open>a\<close>, not \<^verbatim>\<open>.a\<close>. On a map with a node named
  \<^verbatim>\<open>hasOwnProperty\<close>, as \<^verbatim>\<open>{hasOwnProperty: [], a: []}\<close>, the call
  \<^verbatim>\<open>obj.hasOwnProperty(key)\<close> finds the node's array in place of the method and
  throws. And a node named \<^verbatim>\<open>__proto__\<close> gets no path: on a map with the own keys
  \<^verbatim>\<open>__proto__\<close> and \<^verbatim>\<open>a\<close>, both without children, the result is \<^verbatim>\<open>{a: "a"}\<close>.
\<close>

theorem findFullParentPath_cycle_counterexample:
  "findFullParentPath [(''A'', [''B'']), (''B'', [''A''])] [] = None \<and>
   findFullParentPath [([], [''a'']), (''a'', [])] [] = Some (Inr [([], []), (''a'', ''a'')]) \<and>
   findFullParentPath [(''hasOwnProperty'', []), (''a'', [])] [] = Some (Inl TypeError) \<and>
   findFullParentPath [(''__proto__'', []), (''a'', [])] [] = Some (Inr [(''a'', ''a'')])"
proof -
  have "\<not> rooted [(''A'', [''B'']), (''B'', [''A''])] ''A''"
    using not_rooted_cycle [OF _ firstParent_AB] by blast
  then have "findFullParentPath [(''A'', [''B'']), (''B'', [''A''])] [] = None"
    unfolding findFullParentPath_def by (intro for_None [of _ "''A''"]) simp_all
  with unnamed_parent_paths hidden_method_paths proto_key_paths show ?thesis
    by (simp only: simp_thms)
qed

text \<open>
  Claim C9, as amended. On every adjacency map with distinct, non-empty keys, none of
  them \<^verbatim>\<open>hasOwnProperty\<close> or \<^verbatim>\<open>__proto__\<close>, in which every key is rooted, a key
  \<open>k\<close> that one parent or more list as a child gets the path of \<open>p\<close>, a dot, and its
  own name, where \<open>p\<close> is the first key in enumeration order whose list holds \<open>k\<close>;
  the other parents, \<open>others\<close>, play no part.
\<close>

theorem findFullParentPath_first_parent:
  assumes "distinct (map fst graph)" and "[] \<notin> set (map fst graph)"
    and "''hasOwnProperty'' \<notin> set (map fst graph)" and "''__proto__'' \<notin> set (map fst graph)"
    and "\<forall>k\<in>set (map fst graph). rooted graph k"
    and "k \<in> set (map fst graph)"
    and "filter (\<lambda>(key, deps). k \<in> set deps) graph = (p, deps) # others"
  shows "\<exists>paths pp. findFullParentPath graph [] = Some (Inr paths) \<and>
           map_of paths p = Some pp \<and> map_of paths k = Some (pp @ ''.'' @ k)"
proof -
  let ?paths = "map (\<lambda>k. (k, pathOf graph k)) (map fst graph)"
  have r: "findFullParentPath graph [] = Some (Inr ?paths)"
    using assms(1,5,3,4) by (rule findFullParentPath_paths)
  from find_filter [OF assms(7)] have p: "firstParent graph k = Some p"
    by (simp add: firstParent_def)
  from assms(5,6) have "rooted graph k" by blast
  from pathOf_nested [OF p this assms(2,3)] map_of_paths [OF assms(6), of "pathOf graph"]
    map_of_paths [OF firstParent_key [OF p], of "pathOf graph"]
  have "map_of ?paths p = Some (pathOf graph p) \<and>
        map_of ?paths k = Some (pathOf graph p @ ''.'' @ k)"
    by simp
  with r show ?thesis
    by blast
qed

lemma rooted_two_parents:
  "rooted [(''a'', [''c'']), (''b'', [''c'']), (''c'', [])] ''a''"
  "rooted [(''a'', [''c'']), (''b'', [''c'']), (''c'', [])] ''b''"
  "rooted [(''a'', [''c'']), (''b'', [''c'']), (''c'', [])] ''c''"
proof -
  let ?g = "[(''a'', [''c'']), (''b'', [''c'']), (''c'', [])]"
  show a: "rooted ?g ''a''"
    by (rule rooted.root) (simp add: firstParent_def)
  show "rooted ?g ''b''"
    by (rule rooted.root) (simp add: firstParent_def)
  have "firstParent ?g ''c'' = Some ''a''"
    by (simp add: firstParent_def)
  then show "rooted ?g ''c''"
    using a by (rule rooted.nested)
qed

text \<open>
  Claim C9, the amended statement on the map \<^verbatim>\<open>{a: [c], b: [c], c: []}\<close>, where
  \<^verbatim>\<open>c\<close> has the parents \<^verbatim>\<open>a\<close> and \<^verbatim>\<open>b\<close>: its path is \<^verbatim>\<open>a.c\<close>.
\<close>

theorem findFullParentPath_first_parent_witness:
  "distinct (map fst [(''a'', [''c'']), (''b'', [''c'']), (''c'', [])]) \<and>
   [] \<notin> set (map fst [(''a'', [''c'']), (''b'', [''c'']), (''c'', [])]) \<and>
   ''hasOwnProperty'' \<notin> set (map fst [(''a'', [''c'']), (''b'', [''c'']), (''c'', [])]) \<and>
   ''__proto__'' \<notin> set (map fst [(''a'', [''c'']), (''b'', [''c'']), (''c'', [])]) \<and>
   rooted [(''a'', [''c'']), (''b'', [''c'']), (''c'', [])] ''a'' \<and>
   rooted [(''a'', [''c'']), (''b'', [''c'']), (''c'', [])] ''b'' \<and>
   rooted [(''a'', [''c'']), (''b'', [''c'']), (''c'', [])] ''c'' \<and>
   ''c'' \<in> set (map fst [(''a'', [''c'']), (''b'', [''c'']), (''c'', [])]) \<and>
   filter (\<lambda>(key, deps). ''c'' \<in> set deps) [(''a'', [''c'']), (''b'', [''c'']), (''c'', [])] =
     (''a'', [''c'']) # [(''b'', [''c''])] \<and>
   findFullParentPath [(''a'', [''c'']), (''b'', [''c'']), (''c'', [])] [] =
     Some (Inr [(''a'', ''a''), (''b'', ''b''), (''c'', ''a.c'')])"
proof -
  let ?g = "[(''a'', [''c'']), (''b'', [''c'']), (''c'', [])]"
  have h1: "distinct (map fst ?g)"
    by simp
  have h2: "[] \<notin> set (map fst ?g)"
    by simp
  have h3: "\<forall>k\<in>set (map fst ?g). rooted ?g k"
    using rooted_two_parents by simp
  have h4: "''c'' \<in> set (map fst ?g)"
    by simp
  have h5: "filter (\<lambda>(key, deps). ''c'' \<in> set deps) ?g = (''a'', [''c'']) # [(''b'', [''c''])]"
    by simp
  have h6: "''hasOwnProperty'' \<notin> set (map fst ?g)"
    by simp
  have h7: "''__proto__'' \<notin> set (map fst ?g)"
    by simp
  have v: "findFullParentPath ?g [] = Some (Inr [(''a'', ''a''), (''b'', ''b''), (''c'', ''a.c'')])"
    by (simp add: findFullParentPath_def findFullParentPath_visit.simps hasOwnProperty_def
        setProp_def)
  from findFullParentPath_first_parent [OF h1 h2 h6 h7 h3 h4 h5] v h1 h2 h4 h5 h6 h7
    rooted_two_parents
  show ?thesis
    by (simp only: simp_thms)
qed

lemma firstParent_ABC:
  "firstParent [(''a'', [''b'']), (''b'', [''a'']), (''c'', [''a''])] ''a'' = Some ''b''"
  "firstParent [(''a'', [''b'']), (''b'', [''a'']), (''c'', [''a''])] ''b'' = Some ''a''"
  by (simp_all add: firstParent_def)

lemma unnamed_first_parent_paths:
  "findFullParentPath [([], [''x'']), (''b'', [''x'']), (''x'', [])] [] =
     Some (Inr [([], []), (''b'', ''b''), (''x'', ''x'')])"
  by (simp add: findFullParentPath_def findFullParentPath_visit.simps hasOwnProperty_def
      setProp_def)

lemma hidden_method_first_parent:
  "findFullParentPath [(''hasOwnProperty'', [''c'']), (''b'', [''c'']), (''c'', [])] [] =
     Some (Inl TypeError)"
  by (simp add: findFullParentPath_def hasOwnProperty_def)

lemma proto_node_two_parents:
  "findFullParentPath [(''a'', [''__proto__'']), (''b'', [''__proto__'']), (''__proto__'', [])] [] =
     Some (Inr [(''a'', ''a''), (''b'', ''b'')])"
  by (simp add: findFullParentPath_def findFullParentPath_visit.simps hasOwnProperty_def
      setProp_def)

text \<open>
  Claim C9 as stated fails: in the map \<^verbatim>\<open>{a: [b], b: [a], c: [a]}\<close> the key
  \<^verbatim>\<open>a\<close> has the two parents \<^verbatim>\<open>b\<close> and \<^verbatim>\<open>c\<close>, its first parents run in a
  circle, and \<open>findFullParentPath\<close> returns no map. In
  \<^verbatim>\<open>{"": [x], b: [x], x: []}\<close>, where the first parent of \<^verbatim>\<open>x\<close> has the empty
  name, \<^verbatim>\<open>x\<close> gets the path \<^verbatim>\<open>x\<close>, which goes through neither parent. And in
  \<^verbatim>\<open>{hasOwnProperty: [c], b: [c], c: []}\<close>, where the first parent of \<^verbatim>\<open>c\<close> is
  named \<^verbatim>\<open>hasOwnProperty\<close>, the call \<^verbatim>\<open>obj.hasOwnProperty(key)\<close> throws and no
  node gets a path. A node named \<^verbatim>\<open>__proto__\<close> with the parents \<^verbatim>\<open>a\<close> and
  \<^verbatim>\<open>b\<close> gets no path either: the result is \<^verbatim>\<open>{a: "a", b: "b"}\<close>.
\<close>

theorem findFullParentPath_two_parents_counterexample:
  "filter (\<lambda>(key, deps). ''a'' \<in> set deps) [(''a'', [''b'']), (''b'', [''a'']), (''c'', [''a''])] =
     [(''b'', [''a'']), (''c'', [''a''])] \<and>
   findFullParentPath [(''a'', [''b'']), (''b'', [''a'']), (''c'', [''a''])] [] = None \<and>
   filter (\<lambda>(key, deps). ''x'' \<in> set deps) [([], [''x'']), (''b'', [''x'']), (''x'', [])] =
     [([], [''x'']), (''b'', [''x''])] \<and>
   findFullParentPath [([], [''x'']), (''b'', [''x'']), (''x'', [])] [] =
     Some (Inr [([], []), (''b'', ''b''), (''x'', ''x'')]) \<and>
   filter (\<lambda>(key, deps). ''c'' \<in> set deps)
       [(''hasOwnProperty'', [''c'']), (''b'', [''c'']), (''c'', [])] =
     [(''hasOwnProperty'', [''c'']), (''b'', [''c''])] \<and>
   findFullParentPath [(''hasOwnProperty'', [''c'']), (''b'', [''c'']), (''c'', [])] [] =
     Some (Inl TypeError) \<and>
   filter (\<lambda>(key, deps). ''__proto__'' \<in> set deps)
       [(''a'', [''__proto__'']), (''b'', [''__proto__'']), (''__proto__'', [])] =
     [(''a'', [''__proto__'']), (''b'', [''__proto__''])] \<and>
   findFullParentPath [(''a'', [''__proto__'']), (''b'', [''__proto__'']), (''__proto__'', [])] [] =
     Some (Inr [(''a'', ''a''), (''b'', ''b'')])"
proof -
  have "\<not> rooted [(''a'', [''b'']), (''b'', [''a'']), (''c'', [''a''])] ''a''"
    using not_rooted_cycle [OF _ firstParent_ABC] by blast
  then have "findFullParentPath [(''a'', [''b'']), (''b'', [''a'']), (''c'', [''a''])] [] = None"
    unfolding findFullParentPath_def by (intro for_None [of _ "''a''"]) simp_all
  moreover have
    "filter (\<lambda>(key, deps). ''a'' \<in> set deps) [(''a'', [''b'']), (''b'', [''a'']), (''c'', [''a''])] =
       [(''b'', [''a'']), (''c'', [''a''])]"
    "filter (\<lambda>(key, deps). ''x'' \<in> set deps) [([], [''x'']), (''b'', [''x'']), (''x'', [])] =
       [([], [''x'']), (''b'', [''x''])]"
    "filter (\<lambda>(key, deps). ''c'' \<in> set deps)
         [(''hasOwnProperty'', [''c'']), (''b'', [''c'']), (''c'', [])] =
       [(''hasOwnProperty'', [''c'']), (''b'', [''c''])]"
    "filter (\<lambda>(key, deps). ''__proto__'' \<in> set deps)
         [(''a'', [''__proto__'']), (''b'', [''__proto__'']), (''__proto__'', [])] =
       [(''a'', [''__proto__'']), (''b'', [''__proto__''])]"
    by simp_all
  ultimately show ?thesis
    using unnamed_first_parent_paths hidden_method_first_parent proto_node_two_parents
    by (simp only: simp_thms)
qed

section \<open>Properties of the metadata store and of the graph builder\<close>

subsection \<open>The metadata store\<close>






subsection \<open>Building the graph\<close>

lemma find_eq: "find (\<lambda>g. g = x) xs = (if x \<in> set xs then Some x else None)"
  by (induction xs) auto

lemma findName_missing:
  "child \<notin> set stateClasses \<Longrightarrow>
   findName ngDevMode h stateClasses child = Inl (missingError ngDevMode h child)"
  by (simp add: findName_def find_eq missingError_def)

lemma findName_found:
  "child \<in> set stateClasses \<Longrightarrow> metaOf h child = Some m \<Longrightarrow>
   findName ngDevMode h stateClasses child = Inr (name m)"
  by (simp add: findName_def find_eq)

lemma mapE_missing:
  assumes "\<forall>c\<in>set stateClasses. metaOf h c \<noteq> None"
    and "\<exists>child\<in>set cs. child \<notin> set stateClasses"
  shows "\<exists>child\<in>set cs. child \<notin> set stateClasses \<and>
           mapE (findName ngDevMode h stateClasses) cs = Inl (missingError ngDevMode h child)"
  using assms(2)
proof (induction cs)
  case Nil
  then show ?case by simp
next
  case (Cons c cs)
  show ?case
  proof (cases "c \<in> set stateClasses")
    case False
    then show ?thesis by (simp add: findName_missing)
  next
    case True
    with assms(1) obtain m where m: "metaOf h c = Some m" by auto
    from True Cons.prems have "\<exists>child\<in>set cs. child \<notin> set stateClasses" by auto
    from Cons.IH [OF this] obtain child where
      "child \<in> set cs" "child \<notin> set stateClasses"
      "mapE (findName ngDevMode h stateClasses) cs = Inl (missingError ngDevMode h child)"
      by blast
    with findName_found [OF True m] show ?thesis by auto
  qed
qed

lemma mapE_found:
  assumes "\<forall>c\<in>set stateClasses. metaOf h c \<noteq> None" and "set cs \<subseteq> set stateClasses"
  shows "\<exists>names. mapE (findName ngDevMode h stateClasses) cs = Inr names"
  using assms(2)
proof (induction cs)
  case Nil
  then show ?case by simp
next
  case (Cons c cs)
  then have c: "c \<in> set stateClasses" by simp
  with assms(1) obtain m where m: "metaOf h c = Some m" by auto
  from Cons obtain names where "mapE (findName ngDevMode h stateClasses) cs = Inr names" by auto
  with findName_found [OF c m] show ?case by simp
qed

lemma reduce_missing:
  assumes all: "\<forall>c\<in>set stateClasses. metaOf h c \<noteq> None"
    and sub: "set cs \<subseteq> set stateClasses"
    and miss: "\<exists>c\<in>set cs. \<exists>child\<in>set (declaredChildren h c). child \<notin> set stateClasses"
  shows "\<exists>c\<in>set cs. \<exists>child\<in>set (declaredChildren h c). child \<notin> set stateClasses \<and>
           reduce
             (\<lambda>result stateClass.
                case metaOf h stateClass of
                  None \<Rightarrow> Inl TypeError
                | Some m \<Rightarrow>
                    (case mapE (findName ngDevMode h stateClasses)
                            (case children m of None \<Rightarrow> [] | Some cs \<Rightarrow> cs) of
                       Inl e \<Rightarrow> Inl e
                     | Inr names \<Rightarrow> Inr (setProp (keyOf (name m)) names result)))
             cs acc = Inl (missingError ngDevMode h child)"
  using sub miss
proof (induction cs arbitrary: acc)
  case Nil
  then show ?case by simp
next
  case (Cons c cs)
  from Cons.prems(1) all obtain m where m: "metaOf h c = Some m" by auto
  then have dc: "declaredChildren h c = (case children m of None \<Rightarrow> [] | Some cs \<Rightarrow> cs)"
    by (simp add: declaredChildren_def)
  show ?case
  proof (cases "\<exists>child\<in>set (declaredChildren h c). child \<notin> set stateClasses")
    case True
    from mapE_missing [OF all True, of ngDevMode] obtain child where
      "child \<in> set (declaredChildren h c)" "child \<notin> set stateClasses"
      "mapE (findName ngDevMode h stateClasses) (declaredChildren h c) =
         Inl (missingError ngDevMode h child)"
      by blast
    with m dc show ?thesis by auto
  next
    case False
    then have "set (declaredChildren h c) \<subseteq> set stateClasses" by auto
    from mapE_found [OF all this, of ngDevMode] obtain names where
      names: "mapE (findName ngDevMode h stateClasses) (declaredChildren h c) = Inr names"
      by blast
    from False Cons.prems have
      "\<exists>c\<in>set cs. \<exists>child\<in>set (declaredChildren h c). child \<notin> set stateClasses"
      by auto
    from Cons.IH [OF _ this, of "setProp (keyOf (name m)) names acc"] Cons.prems(1)
    obtain c' child where "c' \<in> set cs" "child \<in> set (declaredChildren h c')"
      "child \<notin> set stateClasses"
      "reduce
         (\<lambda>result stateClass.
            case metaOf h stateClass of
              None \<Rightarrow> Inl TypeError
            | Some m \<Rightarrow>
                (case mapE (findName ngDevMode h stateClasses)
                        (case children m of None \<Rightarrow> [] | Some cs \<Rightarrow> cs) of
                   Inl e \<Rightarrow> Inl e
                 | Inr names \<Rightarrow> Inr (setProp (keyOf (name m)) names result)))
         cs (setProp (keyOf (name m)) names acc) = Inl (missingError ngDevMode h child)"
      by auto
    with m dc names show ?thesis by auto
  qed
qed

lemma mapE_Inr_found:
  "mapE (findName ngDevMode h stateClasses) cs = Inr names \<Longrightarrow> set cs \<subseteq> set stateClasses"
proof (induction cs arbitrary: names)
  case Nil
  then show ?case by simp
next
  case (Cons c cs)
  from Cons.prems have "c \<in> set stateClasses"
    by (cases "c \<in> set stateClasses") (auto simp: findName_missing)
  moreover from Cons.prems obtain ns where
    "mapE (findName ngDevMode h stateClasses) cs = Inr ns"
    by (auto split: sum.splits)
  from Cons.IH [OF this] have "set cs \<subseteq> set stateClasses" .
  ultimately show ?case by simp
qed

lemma reduce_fails:
  assumes "\<exists>c\<in>set cs. \<exists>child\<in>set (declaredChildren h c). child \<notin> set stateClasses"
  shows "\<exists>e. reduce
             (\<lambda>result stateClass.
                case metaOf h stateClass of
                  None \<Rightarrow> Inl TypeError
                | Some m \<Rightarrow>
                    (case mapE (findName ngDevMode h stateClasses)
                            (case children m of None \<Rightarrow> [] | Some cs \<Rightarrow> cs) of
                       Inl e \<Rightarrow> Inl e
                     | Inr names \<Rightarrow> Inr (setProp (keyOf (name m)) names result)))
             cs acc = Inl e"
  using assms
proof (induction cs arbitrary: acc)
  case Nil
  then show ?case by simp
next
  case (Cons c cs)
  show ?case
  proof (cases "metaOf h c")
    case None
    then show ?thesis by simp
  next
    case (Some m)
    then have dc: "declaredChildren h c = (case children m of None \<Rightarrow> [] | Some cs \<Rightarrow> cs)"
      by (simp add: declaredChildren_def)
    show ?thesis
    proof (cases "mapE (findName ngDevMode h stateClasses) (declaredChildren h c)")
      case (Inl e)
      with Some dc show ?thesis by simp
    next
      case (Inr names)
      from mapE_Inr_found [OF Inr] Cons.prems have
        "\<exists>c\<in>set cs. \<exists>child\<in>set (declaredChildren h c). child \<notin> set stateClasses"
        by auto
      from Cons.IH [OF this, of "setProp (keyOf (name m)) names acc"] Some dc Inr
      show ?thesis by simp
    qed
  qed
qed

section \<open>The claims about the metadata store and the graph builder\<close>



text \<open>
  Claim C3, as amended. For every list of state classes in which some class declares a
  child that is not in the list, \<open>buildGraph\<close> throws and returns no graph. When every
  class of the list has metadata, what it throws is for such a child: when the guard is
  on (\<^verbatim>\<open>ngDevMode\<close> is not defined, or is truthy) the error whose message prints the
  missing child and says that states may have been forgotten; when \<^verbatim>\<open>ngDevMode\<close> is
  falsy, the \<^verbatim>\<open>TypeError\<close> of the property read on the child that was not found.
\<close>

theorem buildGraph_missing_child:
  assumes "\<exists>c\<in>set stateClasses. \<exists>child\<in>set (declaredChildren h c). child \<notin> set stateClasses"
  shows "(\<exists>e. buildGraph ngDevMode h stateClasses = Inl e) \<and>
         ((\<forall>c\<in>set stateClasses. metaOf h c \<noteq> None) \<longrightarrow>
            (\<exists>c\<in>set stateClasses. \<exists>child\<in>set (declaredChildren h c).
               child \<notin> set stateClasses \<and>
               buildGraph ngDevMode h stateClasses =
                 Inl (if ngDevModeOn ngDevMode then Error (childNotFound (classText h child))
                      else TypeError)))"
proof
  show "\<exists>e. buildGraph ngDevMode h stateClasses = Inl e"
    using reduce_fails [OF assms, of ngDevMode "[]"] unfolding buildGraph_def .
  show "(\<forall>c\<in>set stateClasses. metaOf h c \<noteq> None) \<longrightarrow>
      (\<exists>c\<in>set stateClasses. \<exists>child\<in>set (declaredChildren h c).
         child \<notin> set stateClasses \<and>
         buildGraph ngDevMode h stateClasses =
           Inl (if ngDevModeOn ngDevMode then Error (childNotFound (classText h child))
                else TypeError))"
    using reduce_missing [OF _ subset_refl assms, of ngDevMode "[]"]
    unfolding buildGraph_def missingError_def by blast
qed

lemma cartHeap_facts:
  "metaOf cartHeap 0 \<noteq> None" "metaOf cartHeap 1 \<noteq> None"
  "declaredChildren cartHeap 0 = [1]" "declaredChildren cartHeap 1 = [2]"
  by (simp_all add: metaOf_def cartHeap_def deref_def declaredChildren_def)

lemma buildGraph_cart_dev:
  "buildGraph None cartHeap [0, 1] = Inl (Error (childNotFound ''class CartSavedItems {}''))"
  by (simp add: buildGraph_def cartHeap_def metaOf_def deref_def findName_def keyOf_def
      ngDevModeOn_def setProp_def)

lemma buildGraph_cart_prod: "buildGraph (Some False) cartHeap [0, 1] = Inl TypeError"
  by (simp add: buildGraph_def cartHeap_def metaOf_def deref_def findName_def keyOf_def
      ngDevModeOn_def setProp_def)

text \<open>
  Claim C3, the amended statement on the classes \<^verbatim>\<open>Cart\<close> and \<^verbatim>\<open>CartSaved\<close>,
  with \<^verbatim>\<open>CartSavedItems\<close>, the child of \<^verbatim>\<open>CartSaved\<close>, left out of the list.
\<close>

theorem buildGraph_missing_child_witness:
  "metaOf cartHeap 0 \<noteq> None \<and> metaOf cartHeap 1 \<noteq> None \<and>
   declaredChildren cartHeap 1 = [2] \<and> 2 \<notin> set [0, 1 :: nat] \<and>
   buildGraph None cartHeap [0, 1] = Inl (Error (childNotFound ''class CartSavedItems {}'')) \<and>
   buildGraph (Some False) cartHeap [0, 1] = Inl TypeError"
proof -
  have h1: "\<forall>c\<in>set [0, 1]. metaOf cartHeap c \<noteq> None"
    using cartHeap_facts by simp
  have h2: "\<exists>c\<in>set [0, 1]. \<exists>child\<in>set (declaredChildren cartHeap c). child \<notin> set [0, 1]"
    using cartHeap_facts by simp
  from buildGraph_missing_child [OF h2, of None]
    buildGraph_missing_child [OF h2, of "Some False"] h1
    cartHeap_facts buildGraph_cart_dev buildGraph_cart_prod
  show ?thesis
    by simp
qed

text \<open>
  Claim C3 as stated fails: with \<^verbatim>\<open>ngDevMode\<close> set to \<^verbatim>\<open>false\<close> the error
  thrown for the missing child is a \<^verbatim>\<open>TypeError\<close> of the runtime, not the
  descriptive error that names the child.
\<close>

theorem buildGraph_production_counterexample:
  "declaredChildren cartHeap 1 = [2] \<and> 2 \<notin> set [0, 1 :: nat] \<and>
   buildGraph (Some False) cartHeap [0, 1] = Inl TypeError"
  using cartHeap_facts buildGraph_cart_prod by simp

end
